theory Spec2Isabelle
  imports Main "HOL-Library.Sublist" "HOL-Library.Word"
begin

section \<open>Python strings\<close>

text \<open>
  A Python \<open>str\<close> is modelled as a \<open>string\<close>; one \<open>char\<close> stands for one
  Python character, so \<open>length\<close> and \<open>take\<close> count characters as Python's
  \<open>len\<close> and slicing do.
\<close>

text \<open>\<open>sub in s\<close> on strings: \<open>sub\<close> occurs in \<open>s\<close> as a contiguous block.\<close>

fun py_in :: "string \<Rightarrow> string \<Rightarrow> bool" where
  "py_in sub [] = (sub = [])"
| "py_in sub (c # cs) = (prefix sub (c # cs) \<or> py_in sub cs)"

text \<open>
  \<open>s.split(sep)\<close> for a non-empty separator: the string is scanned from the left;
  at an occurrence of \<open>sep\<close> the current piece ends and the scan resumes behind the
  occurrence. The result is never empty. (Python raises ValueError for an empty
  separator; every separator in the source is a non-empty literal.)
\<close>

fun push_char :: "char \<Rightarrow> string list \<Rightarrow> string list" where
  "push_char c [] = [[c]]"
| "push_char c (p # ps) = (c # p) # ps"

fun py_split :: "string \<Rightarrow> string \<Rightarrow> string list" where
  "py_split sep [] = [[]]"
| "py_split sep (c # cs) =
     (if prefix sep (c # cs) then [] # py_split sep (drop (length sep - 1) cs)
      else push_char c (py_split sep cs))"

section \<open>Drive share links\<close>

text \<open>The f-string \<open>f"https://drive.google.com/uc?export=download&id={file_id}"\<close>.\<close>

definition download_url :: "string \<Rightarrow> string" where
  "download_url file_id = ''https://drive.google.com/uc?export=download&id='' @ file_id"

text \<open>
  \<open>split\<close> never returns an empty list (lemma \<open>py_split_nonempty\<close> below), so the
  indices \<open>[-1]\<close> and \<open>[0]\<close> of the source cannot raise; they are \<open>last\<close> and \<open>hd\<close>.
\<close>

definition normalize_drive_url :: "string \<Rightarrow> string" where
  "normalize_drive_url url =
     (if \<not> py_in ''drive.google.com'' url then url
      else if py_in ''id='' url then
        (let file_id = hd (py_split ''&'' (last (py_split ''id='' url)))
         in download_url file_id)
      else if py_in ''/file/d/'' url then
        (let file_id = hd (py_split ''/'' (last (py_split ''/file/d/'' url)))
         in download_url file_id)
      else url)"


text \<open>
  The file id that \<open>normalize_drive_url\<close> puts into the download link, when it
  rewrites the URL at all.
\<close>

definition drive_file_id :: "string \<Rightarrow> string option" where
  "drive_file_id url =
     (if \<not> py_in ''drive.google.com'' url then None
      else if py_in ''id='' url then
        Some (hd (py_split ''&'' (last (py_split ''id='' url))))
      else if py_in ''/file/d/'' url then
        Some (hd (py_split ''/'' (last (py_split ''/file/d/'' url))))
      else None)"

section \<open>Python values and exceptions\<close>

text \<open>
  The values \<open>json.loads\<close> and \<open>Response.json()\<close> produce: \<open>None\<close>, \<open>bool\<close>,
  \<open>int\<close>, \<open>float\<close>, \<open>str\<close>, \<open>list\<close> and \<open>dict\<close>. A dict is its list of
  items in insertion order (keys distinct), read with \<open>map_of\<close>. A float is
  \<open>m * 2 ^ e\<close>, an infinity with its sign, or not-a-number; the source only ever
  tests a float for truth.
\<close>

datatype pyfloat = PyFinite int int | PyInf bool | PyNaN

datatype json =
    JNull
  | JBool bool
  | JInt int
  | JFloat pyfloat
  | JStr string
  | JArr "json list"
  | JObj "(string \<times> json) list"

datatype py_error =
    AttributeError
  | TypeError
  | JSONDecodeError
  | RuntimeError string
  | RaisedError string

text \<open>Sequencing of steps that may raise: the first exception ends the computation.\<close>

definition and_then :: "'e + 'a \<Rightarrow> ('a \<Rightarrow> 'e + 'b) \<Rightarrow> 'e + 'b" where
  "and_then r f = (case r of Inl e \<Rightarrow> Inl e | Inr x \<Rightarrow> f x)"

text \<open>\<open>d.get(k, default)\<close>: only a dict has the method.\<close>

definition dict_get :: "json \<Rightarrow> string \<Rightarrow> json \<Rightarrow> py_error + json" where
  "dict_get d k dflt =
     (case d of
        JObj kvs \<Rightarrow> Inr (case map_of kvs k of Some v \<Rightarrow> v | None \<Rightarrow> dflt)
      | _ \<Rightarrow> Inl AttributeError)"

text \<open>\<open>for x in v\<close>: a list gives its elements, a dict its keys, a str its characters.\<close>

definition py_iter :: "json \<Rightarrow> py_error + json list" where
  "py_iter v =
     (case v of
        JArr xs \<Rightarrow> Inr xs
      | JObj kvs \<Rightarrow> Inr (map (\<lambda>kv. JStr (fst kv)) kvs)
      | JStr s \<Rightarrow> Inr (map (\<lambda>c. JStr [c]) s)
      | _ \<Rightarrow> Inl TypeError)"

text \<open>Truth value of a Python value, as \<open>if t\<close> tests it.\<close>

fun py_truthy :: "json \<Rightarrow> bool" where
  "py_truthy JNull = False"
| "py_truthy (JBool b) = b"
| "py_truthy (JInt i) = (i \<noteq> 0)"
| "py_truthy (JFloat f) = (case f of PyFinite m e \<Rightarrow> m \<noteq> 0 | _ \<Rightarrow> True)"
| "py_truthy (JStr s) = (s \<noteq> [])"
| "py_truthy (JArr xs) = (xs \<noteq> [])"
| "py_truthy (JObj kvs) = (kvs \<noteq> [])"

text \<open>\<open>sep.join(xs)\<close>: TypeError unless every element is a str.\<close>

fun join_strs :: "string \<Rightarrow> string list \<Rightarrow> string" where
  "join_strs sep [] = []"
| "join_strs sep [x] = x"
| "join_strs sep (x # y # ys) = x @ sep @ join_strs sep (y # ys)"

fun str_items :: "json list \<Rightarrow> py_error + string list" where
  "str_items [] = Inr []"
| "str_items (JStr s # vs) = and_then (str_items vs) (\<lambda>ss. Inr (s # ss))"
| "str_items (_ # vs) = Inl TypeError"

definition py_join :: "string \<Rightarrow> json list \<Rightarrow> py_error + string" where
  "py_join sep vs = and_then (str_items vs) (\<lambda>ss. Inr (join_strs sep ss))"

text \<open>\<open>k in v\<close> for a str \<open>k\<close>: key of a dict, element of a list, substring of a str.\<close>

fun py_contains :: "string \<Rightarrow> json \<Rightarrow> py_error + bool" where
  "py_contains k (JObj kvs) = Inr (k \<in> set (map fst kvs))"
| "py_contains k (JArr xs) = Inr (JStr k \<in> set xs)"
| "py_contains k (JStr s) = Inr (py_in k s)"
| "py_contains k _ = Inl TypeError"

text \<open>\<open>str(n)\<close> for an int: its decimal digits, with a sign when negative.\<close>

fun str_nat :: "nat \<Rightarrow> string" where
  "str_nat n =
     (if n < 10 then [''0123456789'' ! n]
      else str_nat (n div 10) @ [''0123456789'' ! (n mod 10)])"

declare str_nat.simps [simp del]

definition str_int :: "int \<Rightarrow> string" where
  "str_int i = (if i < 0 then CHR ''-'' # str_nat (nat (- i)) else str_nat (nat i))"

text \<open>
  \<open>s.strip()\<close>: the characters Python's \<open>str.isspace\<close> accepts are dropped at both
  ends (those below 256: tab to carriage return, the four separators 28 to 31,
  space, next-line and the no-break space).
\<close>

definition py_isspace :: "char \<Rightarrow> bool" where
  "py_isspace c = ((of_char c :: nat) \<in> {9, 10, 11, 12, 13, 28, 29, 30, 31, 32, 133, 160})"

definition py_strip :: "string \<Rightarrow> string" where
  "py_strip s = rev (dropWhile py_isspace (rev (dropWhile py_isspace s)))"

section \<open>Response parser\<close>

definition required_fields :: "string list" where
  "required_fields =
     [''flavors_list'', ''multiple_descriptors'', ''brand_name'', ''extraction_evidence'',
      ''nicotine_content'', ''size_or_volume'', ''warning_label_present'',
      ''warning_label_location'', ''main_color'']"

text \<open>The inner loop of \<open>extract_output_text\<close>, over the content entries of one item.\<close>

fun content_loop :: "json list \<Rightarrow> json list \<Rightarrow> py_error + json list" where
  "content_loop [] texts = Inr texts"
| "content_loop (content # rest) texts =
     and_then (dict_get content ''type'' JNull) (\<lambda>ty.
       if ty = JStr ''output_text'' then
         and_then (dict_get content ''text'' (JStr [])) (\<lambda>t. content_loop rest (texts @ [t]))
       else content_loop rest texts)"

text \<open>The outer loop, over the output items.\<close>

fun item_loop :: "json list \<Rightarrow> json list \<Rightarrow> py_error + json list" where
  "item_loop [] texts = Inr texts"
| "item_loop (item # rest) texts =
     and_then (dict_get item ''type'' JNull) (\<lambda>ty.
       if ty \<noteq> JStr ''message'' then item_loop rest texts
       else
         and_then (dict_get item ''content'' (JArr [])) (\<lambda>cs.
         and_then (py_iter cs) (\<lambda>entries.
         and_then (content_loop entries texts) (\<lambda>texts'. item_loop rest texts'))))"

definition extract_output_text :: "json \<Rightarrow> py_error + string" where
  "extract_output_text response_json =
     and_then (dict_get response_json ''output'' (JArr [])) (\<lambda>output.
     and_then (py_iter output) (\<lambda>items.
     and_then (item_loop items []) (\<lambda>texts.
       py_join [CHR 0x0A] (filter py_truthy texts))))"


text \<open>
  The list comprehension \<open>[k for k in required_fields() if k not in parsed]\<close>; the
  membership test raises when \<open>parsed\<close> is not a container.
\<close>

fun missing_loop :: "string list \<Rightarrow> json \<Rightarrow> py_error + string list" where
  "missing_loop [] parsed = Inr []"
| "missing_loop (k # ks) parsed =
     and_then (py_contains k parsed) (\<lambda>present.
     and_then (missing_loop ks parsed) (\<lambda>rest.
       Inr (if \<not> present then k # rest else rest)))"

section \<open>Result display\<close>

text \<open>
  What the script puts on the page, in order. The session state holds the last output
  text and the last raw response, each absent until a run has stored it.
\<close>

datatype ui_action =
    Warning string
  | ShowJson json
  | ShowCode string
  | DownloadButton string string string string

record session_state =
  last_output_text :: "string option"
  last_response_json :: "json option"

text \<open>
  The block under \<open>if "last_output_text" in st.session_state\<close>. The decoder
  \<open>json.loads\<close> and the serializer \<open>json.dumps(_, ensure_ascii=False, indent=2)\<close>
  belong to Python's library and are parameters here; \<open>loads\<close> and \<open>dumps\<close> below
  are their model. The result is the page output
  together with the exception that leaves the block, if any; only
  \<open>json.JSONDecodeError\<close> is caught.
\<close>

definition show_result ::
  "(string \<Rightarrow> py_error + json) \<Rightarrow> (json \<Rightarrow> string) \<Rightarrow> session_state
     \<Rightarrow> ui_action list \<times> py_error option" where
  "show_result json_loads json_dumps st =
     (case last_output_text st of
        None \<Rightarrow> ([], None)
      | Some output_text \<Rightarrow>
          (let response_json = (case last_response_json st of None \<Rightarrow> JObj [] | Some r \<Rightarrow> r)
           in if output_text = [] then
                ([Warning ''No output_text found in response. Showing raw response.'',
                  ShowJson response_json], None)
              else
                (case json_loads output_text of
                   Inl JSONDecodeError \<Rightarrow>
                     ([Warning ''Output is not valid JSON. Showing raw text.'',
                       ShowCode output_text], None)
                 | Inl e \<Rightarrow> ([], Some e)
                 | Inr parsed \<Rightarrow>
                     (case missing_loop required_fields parsed of
                        Inl e \<Rightarrow> ([ShowJson parsed], Some e)
                      | Inr missing \<Rightarrow>
                          ([ShowJson parsed]
                           @ (if missing \<noteq> [] then
                                [Warning (''JSON missing required fields: ''
                                          @ join_strs '', '' missing)]
                              else [])
                           @ [DownloadButton ''Download JSON'' (json_dumps parsed)
                                ''extraction.json'' ''application/json''],
                           None)))))"

section \<open>HTTP\<close>

text \<open>
  A request as the source builds it, and what \<open>requests\<close> gives back: it raises
  (kept as the exception's \<open>str\<close>), or returns a response. \<open>Response.json()\<close> and
  \<open>Response.text\<close> are fields of the response; the header dictionary is the
  library's case-insensitive lookup.
\<close>

record http_request =
  req_method :: string
  req_url :: string
  req_headers :: "(string \<times> string) list"
  req_json :: "json option"
  req_timeout :: nat

record http_response =
  status_code :: int
  reason :: string
  resp_headers :: "string \<Rightarrow> string option"
  resp_content :: "8 word list"
  resp_text :: string
  resp_json :: "py_error + json"

datatype http_outcome = Raises string | Returns http_response

type_synonym network = "http_request \<Rightarrow> http_outcome"

text \<open>
  \<open>Response.ok\<close> of the \<open>requests\<close> library: true unless \<open>raise_for_status\<close>
  would raise, which it does for a status from 400 to 599.
\<close>

definition ok :: "http_response \<Rightarrow> bool" where
  "ok resp = (\<not> (400 \<le> status_code resp \<and> status_code resp < 600))"

definition OPENAI_API_BASE :: string where
  "OPENAI_API_BASE = ''https://api.openai.com/v1''"

definition MODEL_ID :: string where
  "MODEL_ID = ''gpt-5.2''"

subsection \<open>Image fetch\<close>

text \<open>\<open>requests.get(url, timeout=30)\<close>.\<close>

definition image_request :: "string \<Rightarrow> http_request" where
  "image_request url =
     \<lparr>req_method = ''GET'', req_url = url, req_headers = [], req_json = None,
      req_timeout = 30\<rparr>"

definition fetch_image_url ::
  "network \<Rightarrow> string \<Rightarrow> 8 word list option \<times> string option \<times> string option" where
  "fetch_image_url net url =
     (case net (image_request url) of
        Raises exc \<Rightarrow> (None, None, Some exc)
      | Returns resp \<Rightarrow>
          if \<not> ok resp then
            (None, None, Some (''HTTP '' @ str_int (status_code resp) @ '' '' @ reason resp))
          else
            (let content_type =
                   (case resp_headers resp ''Content-Type'' of None \<Rightarrow> [] | Some v \<Rightarrow> v)
             in if \<not> prefix ''image/'' content_type then
                  (None, None,
                   Some (''URL did not return an image (Content-Type: '' @ content_type @ '')''))
                else (Some (resp_content resp), Some content_type, None)))"

subsection \<open>Credential validation\<close>

text \<open>\<open>requests.get(f"{OPENAI_API_BASE}/models", headers=headers, timeout=15)\<close>.\<close>

definition models_request :: "string \<Rightarrow> http_request" where
  "models_request api_key =
     \<lparr>req_method = ''GET'', req_url = OPENAI_API_BASE @ ''/models'',
      req_headers = [(''Authorization'', ''Bearer '' @ api_key)],
      req_json = None, req_timeout = 15\<rparr>"

definition validate_api_key :: "network \<Rightarrow> string \<Rightarrow> bool \<times> string" where
  "validate_api_key net api_key =
     (if api_key = [] then (False, ''Missing API key'')
      else
        (case net (models_request api_key) of
           Raises exc \<Rightarrow> (False, exc)
         | Returns resp \<Rightarrow>
             if ok resp then (True, ''API key looks valid'')
             else if status_code resp = 401 then (False, ''Invalid API key'')
             else (False, ''HTTP '' @ str_int (status_code resp) @ '' '' @ reason resp)))"

subsection \<open>Extraction call\<close>

text \<open>
  An f-string field \<open>{v}\<close>: a str is inserted as it is, \<open>None\<close>, a bool and an int
  in their usual spelling; how Python spells a float, a list or a dict is the
  parameter \<open>repr\<close>.
\<close>

definition py_format :: "(json \<Rightarrow> string) \<Rightarrow> json \<Rightarrow> string" where
  "py_format repr v =
     (case v of
        JStr s \<Rightarrow> s
      | JNull \<Rightarrow> ''None''
      | JBool b \<Rightarrow> (if b then ''True'' else ''False'')
      | JInt i \<Rightarrow> str_int i
      | _ \<Rightarrow> repr v)"

text \<open>The POST of \<open>call_openai\<close>, with its payload.\<close>

definition responses_request :: "string \<Rightarrow> string \<Rightarrow> string \<Rightarrow> string \<Rightarrow> http_request" where
  "responses_request api_key system_prompt user_prompt image_url =
     (let url = OPENAI_API_BASE @ ''/responses'';
          headers = [(''Authorization'', ''Bearer '' @ api_key)];
          image_content = JObj [(''type'', JStr ''input_image''), (''image_url'', JStr image_url)];
          payload =
            JObj
              [(''model'', JStr MODEL_ID),
               (''input'',
                JArr
                  [JObj [(''role'', JStr ''system''),
                         (''content'',
                          JArr [JObj [(''type'', JStr ''input_text''),
                                      (''text'', JStr system_prompt)]])],
                   JObj [(''role'', JStr ''user''),
                         (''content'',
                          JArr [JObj [(''type'', JStr ''input_text''),
                                      (''text'', JStr user_prompt)],
                                image_content])]]),
               (''text'', JObj [(''format'', JObj [(''type'', JStr ''json_object'')])])]
      in \<lparr>req_method = ''POST'', req_url = url, req_headers = headers,
          req_json = Some payload, req_timeout = 90\<rparr>)"

text \<open>
  The \<open>try\<close> block that computes \<open>detail\<close>: any exception in it (the body is not
  JSON, or a \<open>.get\<close> is called on something that is not a dict) selects the first
  1000 characters of the raw text.
\<close>

definition error_detail :: "(json \<Rightarrow> string) \<Rightarrow> http_response \<Rightarrow> string" where
  "error_detail repr resp =
     (case and_then (resp_json resp) (\<lambda>body.
           and_then (dict_get body ''error'' (JObj [])) (\<lambda>err.
           and_then (dict_get err ''message'' (JStr [])) (\<lambda>message.
           and_then (dict_get err ''type'' (JStr [])) (\<lambda>err_type.
           and_then (dict_get err ''code'' (JStr [])) (\<lambda>code.
             Inr (py_strip (py_format repr message @ '' (type='' @ py_format repr err_type
                            @ '', code='' @ py_format repr code @ '')''))))))) of
        Inl e \<Rightarrow> take 1000 (resp_text resp)
      | Inr detail \<Rightarrow> detail)"

definition access_hint :: string where
  "access_hint =
     '' This may be a model access issue; check your API tier and organization verification.''"

definition call_openai ::
  "network \<Rightarrow> (json \<Rightarrow> string) \<Rightarrow> string \<Rightarrow> string \<Rightarrow> string \<Rightarrow> string
     \<Rightarrow> py_error + json" where
  "call_openai net repr api_key system_prompt user_prompt image_url =
     (case net (responses_request api_key system_prompt user_prompt image_url) of
        Raises exc \<Rightarrow> Inl (RaisedError exc)
      | Returns resp \<Rightarrow>
          if \<not> ok resp then
            (let detail = error_detail repr resp;
                 hint = (if status_code resp \<in> {401, 403, 404} then access_hint else [])
             in Inl (RuntimeError (''HTTP '' @ str_int (status_code resp) @ '' ''
                                   @ reason resp @ '': '' @ detail @ hint)))
          else resp_json resp)"

section \<open>Image loader: uploaded files\<close>

text \<open>
  \<open>base64.b64encode\<close>: three bytes become four characters of the standard alphabet;
  a last group of one or two bytes is padded with \<open>=\<close>.
\<close>

definition b64_char :: "nat \<Rightarrow> char" where
  "b64_char n =
     ''ABCDEFGHIJKLMNOPQRSTUVWXYZabcdefghijklmnopqrstuvwxyz0123456789+/'' ! n"

fun b64encode :: "8 word list \<Rightarrow> string" where
  "b64encode [] = []"
| "b64encode [a] =
     [b64_char (unat a div 4), b64_char (unat a mod 4 * 16), CHR ''='', CHR ''='']"
| "b64encode [a, b] =
     [b64_char (unat a div 4), b64_char (unat a mod 4 * 16 + unat b div 16),
      b64_char (unat b mod 16 * 4), CHR ''='']"
| "b64encode (a # b # c # rest) =
     [b64_char (unat a div 4), b64_char (unat a mod 4 * 16 + unat b div 16),
      b64_char (unat b mod 16 * 4 + unat c div 64), b64_char (unat c mod 64)]
     @ b64encode rest"

text \<open>
  An uploaded file: the bytes \<open>read()\<close> returns and the declared media type
  (\<open>None\<close> when there is none).
\<close>

record uploaded_file =
  file_bytes :: "8 word list"
  file_type :: "string option"

definition file_to_data_url :: "uploaded_file option \<Rightarrow> string option" where
  "file_to_data_url uploaded_file =
     (case uploaded_file of
        None \<Rightarrow> None
      | Some f \<Rightarrow>
          (let data = file_bytes f
           in if data = [] then None
              else
                (let mime = (case file_type f of
                               None \<Rightarrow> ''application/octet-stream''
                             | Some t \<Rightarrow> if t = [] then ''application/octet-stream'' else t);
                     b64 = b64encode data
                 in Some (''data:'' @ mime @ '';base64,'' @ b64))))"

section \<open>JSON serializer and decoder\<close>

text \<open>
  Python's \<open>json\<close> module, as the script calls it: \<open>json.loads(output_text)\<close> and
  \<open>json.dumps(parsed, ensure_ascii=False, indent=2)\<close>. Both follow the module's
  documentation and its reference implementation in \<open>json/encoder.py\<close>,
  \<open>json/decoder.py\<close> and \<open>json/scanner.py\<close>, with every other option at its default
  (\<open>allow_nan=True\<close>, \<open>strict=True\<close>, \<open>sort_keys=False\<close>, separators \<open>,\<close> and \<open>: \<close>).

  Three things lie outside the model. A character of a text is one \<open>char\<close>, so a
  text with a character above U+00FF has no image, and an escape \<open>\uXXXX\<close> that
  denotes one ends the decoding with an exception of its own. The conversion between
  a finite float and its decimal text (\<open>float.__repr__\<close> and \<open>float(_)\<close>) is a pair
  of parameters \<open>float_repr\<close> and \<open>float_of_str\<close>. The limits of the interpreter
  (depth of recursion, number of digits of an \<open>int\<close>, memory) are absent.
\<close>

subsection \<open>Serializer\<close>

text \<open>
  A str is written between double quotes. With \<open>ensure_ascii=False\<close> only the double
  quote, the backslash and the control characters below U+0020 are escaped: the
  short escapes where there is one, \<open>\u00XX\<close> for the others.
\<close>

definition hex_digit :: "nat \<Rightarrow> char" where
  "hex_digit n = ''0123456789abcdef'' ! n"

definition escape_char :: "char \<Rightarrow> string" where
  "escape_char c =
     (if c = CHR 0x22 then [CHR 0x5C, CHR 0x22]
      else if c = CHR 0x5C then [CHR 0x5C, CHR 0x5C]
      else if c = CHR 0x0A then [CHR 0x5C, CHR ''n'']
      else if c = CHR 0x0D then [CHR 0x5C, CHR ''r'']
      else if c = CHR 0x09 then [CHR 0x5C, CHR ''t'']
      else if c = CHR 0x08 then [CHR 0x5C, CHR ''b'']
      else if c = CHR 0x0C then [CHR 0x5C, CHR ''f'']
      else if (of_char c :: nat) < 32 then
        [CHR 0x5C, CHR ''u'', CHR ''0'', CHR ''0'',
         hex_digit ((of_char c :: nat) div 16), hex_digit ((of_char c :: nat) mod 16)]
      else [c])"

definition encode_str :: "string \<Rightarrow> string" where
  "encode_str s = CHR 0x22 # concat (map escape_char s) @ [CHR 0x22]"

text \<open>With \<open>indent=2\<close> every item starts on a line of its own, two spaces per level.\<close>

definition newline_indent :: "nat \<Rightarrow> string" where
  "newline_indent level = CHR 0x0A # replicate (2 * level) (CHR '' '')"

text \<open>
  A float that is not finite is written \<open>NaN\<close>, \<open>Infinity\<close> or \<open>-Infinity\<close>
  (\<open>allow_nan\<close> is true); a finite one as \<open>float.__repr__\<close> writes it.
\<close>

definition dumps_float :: "(pyfloat \<Rightarrow> string) \<Rightarrow> pyfloat \<Rightarrow> string" where
  "dumps_float float_repr f =
     (case f of
        PyNaN \<Rightarrow> ''NaN''
      | PyInf negative \<Rightarrow> (if negative then ''-Infinity'' else ''Infinity'')
      | PyFinite m e \<Rightarrow> float_repr f)"

text \<open>
  The serialization of a value at a nesting level. An empty list is \<open>[]\<close> and an
  empty dict \<open>{}\<close>; the items of the others are separated by a comma and a line
  break, and the closing bracket stands on a line of its own at the outer level.
  The keys of a dict are strs here, as every dict the decoder builds has them.
\<close>

fun dumps_value :: "(pyfloat \<Rightarrow> string) \<Rightarrow> nat \<Rightarrow> json \<Rightarrow> string" where
  "dumps_value float_repr level JNull = ''null''"
| "dumps_value float_repr level (JBool b) = (if b then ''true'' else ''false'')"
| "dumps_value float_repr level (JInt i) = str_int i"
| "dumps_value float_repr level (JFloat f) = dumps_float float_repr f"
| "dumps_value float_repr level (JStr s) = encode_str s"
| "dumps_value float_repr level (JArr xs) =
     (if xs = [] then ''[]''
      else ''['' @ newline_indent (Suc level)
           @ join_strs ('','' @ newline_indent (Suc level))
               (map (dumps_value float_repr (Suc level)) xs)
           @ newline_indent level @ '']'')"
| "dumps_value float_repr level (JObj kvs) =
     (if kvs = [] then ''{}''
      else ''{'' @ newline_indent (Suc level)
           @ join_strs ('','' @ newline_indent (Suc level))
               (map (\<lambda>(k, v). encode_str k @ '': '' @ dumps_value float_repr (Suc level) v) kvs)
           @ newline_indent level @ ''}'')"

text \<open>\<open>json.dumps(obj, ensure_ascii=False, indent=2)\<close>.\<close>

definition dumps :: "(pyfloat \<Rightarrow> string) \<Rightarrow> json \<Rightarrow> string" where
  "dumps float_repr obj = dumps_value float_repr 0 obj"

subsection \<open>Decoder\<close>

text \<open>The white space between tokens: space, tab, line feed and carriage return.\<close>

definition json_ws :: "char \<Rightarrow> bool" where
  "json_ws c = (c = CHR '' '' \<or> c = CHR 0x09 \<or> c = CHR 0x0A \<or> c = CHR 0x0D)"

definition skip_ws :: "string \<Rightarrow> string" where
  "skip_ws s = dropWhile json_ws s"

text \<open>
  Numbers. The decoder matches
  \<open>(-?(?:0|[1-9][0-9]*))(\.[0-9]+)?([eE][-+]?[0-9]+)?\<close> at the position: an integer
  part, then a fraction and an exponent, each possibly empty. \<open>match_number\<close> gives
  the three groups and the text after the match. A match with a fraction or an
  exponent is a float, any other an int.
\<close>

definition is_digit :: "char \<Rightarrow> bool" where
  "is_digit c = (48 \<le> (of_char c :: nat) \<and> (of_char c :: nat) \<le> 57)"

definition digit_val :: "char \<Rightarrow> nat" where
  "digit_val c = (of_char c :: nat) - 48"

definition nat_of_digits :: "string \<Rightarrow> nat" where
  "nat_of_digits ds = foldl (\<lambda>a c. 10 * a + digit_val c) 0 ds"

text \<open>\<open>int(s)\<close> on the integer group of a match.\<close>

definition int_of_str :: "string \<Rightarrow> int" where
  "int_of_str s =
     (case s of
        [] \<Rightarrow> 0
      | c # cs \<Rightarrow> if c = CHR ''-'' then - int (nat_of_digits cs) else int (nat_of_digits s))"

definition scan_digits :: "string \<Rightarrow> (string \<times> string) option" where
  "scan_digits s =
     (case s of
        [] \<Rightarrow> None
      | c # cs \<Rightarrow>
          if c = CHR ''0'' then Some ([c], cs)
          else if is_digit c then Some (c # takeWhile is_digit cs, dropWhile is_digit cs)
          else None)"

definition scan_integer :: "string \<Rightarrow> (string \<times> string) option" where
  "scan_integer s =
     (case s of
        [] \<Rightarrow> None
      | c # cs \<Rightarrow>
          if c = CHR ''-'' then
            (case scan_digits cs of None \<Rightarrow> None | Some (ds, r) \<Rightarrow> Some (c # ds, r))
          else scan_digits s)"

definition scan_frac :: "string \<Rightarrow> string \<times> string" where
  "scan_frac s =
     (case s of
        c # d # cs \<Rightarrow>
          if c = CHR ''.'' \<and> is_digit d then
            (c # d # takeWhile is_digit cs, dropWhile is_digit cs)
          else ([], s)
      | _ \<Rightarrow> ([], s))"

definition scan_exp :: "string \<Rightarrow> string \<times> string" where
  "scan_exp s =
     (case s of
        [] \<Rightarrow> ([], s)
      | c # cs \<Rightarrow>
          if c = CHR ''e'' \<or> c = CHR ''E'' then
            (case cs of
               [] \<Rightarrow> ([], s)
             | d # ds \<Rightarrow>
                 if d = CHR ''+'' \<or> d = CHR ''-'' then
                   (case ds of
                      [] \<Rightarrow> ([], s)
                    | x # xs \<Rightarrow>
                        if is_digit x then
                          (c # d # x # takeWhile is_digit xs, dropWhile is_digit xs)
                        else ([], s))
                 else if is_digit d then (c # d # takeWhile is_digit ds, dropWhile is_digit ds)
                 else ([], s))
          else ([], s))"

definition match_number :: "string \<Rightarrow> (string \<times> string \<times> string \<times> string) option" where
  "match_number s =
     (case scan_integer s of
        None \<Rightarrow> None
      | Some (integer, r1) \<Rightarrow>
          (let (frac, r2) = scan_frac r1;
               (exp, r3) = scan_exp r2
           in Some (integer, frac, exp, r3)))"

text \<open>
  Strings. \<open>scanstring\<close> reads from just after the opening quote to the closing
  one. A backslash starts an escape: one of the eight short ones, or \<open>u\<close> and four
  hexadecimal digits. A control character below U+0020 that is not escaped is an
  error (\<open>strict\<close> is true).
\<close>

definition backslash :: "char \<Rightarrow> char option" where
  "backslash c =
     (if c = CHR 0x22 then Some (CHR 0x22)
      else if c = CHR 0x5C then Some (CHR 0x5C)
      else if c = CHR ''/'' then Some (CHR ''/'')
      else if c = CHR ''b'' then Some (CHR 0x08)
      else if c = CHR ''f'' then Some (CHR 0x0C)
      else if c = CHR ''n'' then Some (CHR 0x0A)
      else if c = CHR ''r'' then Some (CHR 0x0D)
      else if c = CHR ''t'' then Some (CHR 0x09)
      else None)"

definition hex_val :: "char \<Rightarrow> nat option" where
  "hex_val c =
     (let n = (of_char c :: nat)
      in if 48 \<le> n \<and> n \<le> 57 then Some (n - 48)
         else if 97 \<le> n \<and> n \<le> 102 then Some (n - 87)
         else if 65 \<le> n \<and> n \<le> 70 then Some (n - 55)
         else None)"

definition decode_uXXXX :: "string \<Rightarrow> nat option" where
  "decode_uXXXX s =
     (case map hex_val (take 4 s) of
        [Some a, Some b, Some c, Some d] \<Rightarrow> Some (((a * 16 + b) * 16 + c) * 16 + d)
      | _ \<Rightarrow> None)"

fun scanstring :: "string \<Rightarrow> py_error + string \<times> string" where
  "scanstring [] = Inl JSONDecodeError"
| "scanstring (c # cs) =
     (if c = CHR 0x22 then Inr ([], cs)
      else if c = CHR 0x5C then
        (case cs of
           [] \<Rightarrow> Inl JSONDecodeError
         | esc # rest \<Rightarrow>
             if esc = CHR ''u'' then
               (case decode_uXXXX rest of
                  None \<Rightarrow> Inl JSONDecodeError
                | Some uni \<Rightarrow>
                    if uni < 256 then
                      and_then (scanstring (drop 4 rest))
                        (\<lambda>(chunk, r). Inr (char_of uni # chunk, r))
                    else Inl (RaisedError ''character above U+00FF''))
             else
               (case backslash esc of
                  None \<Rightarrow> Inl JSONDecodeError
                | Some ch \<Rightarrow> and_then (scanstring rest) (\<lambda>(chunk, r). Inr (ch # chunk, r))))
      else if (of_char c :: nat) < 32 then Inl JSONDecodeError
      else and_then (scanstring cs) (\<lambda>(chunk, r). Inr (c # chunk, r)))"

text \<open>
  \<open>dict(pairs)\<close>: when a key occurs again its value is replaced and the key keeps
  its place.
\<close>

fun dict_set :: "string \<Rightarrow> json \<Rightarrow> (string \<times> json) list \<Rightarrow> (string \<times> json) list" where
  "dict_set k v [] = [(k, v)]"
| "dict_set k v (p # ps) = (if fst p = k then (k, v) # ps else p # dict_set k v ps)"

definition dict_of_pairs :: "(string \<times> json) list \<Rightarrow> (string \<times> json) list" where
  "dict_of_pairs pairs = foldl (\<lambda>d (k, v). dict_set k v d) [] pairs"

text \<open>
  The values that are neither a str, a dict nor a list, in the order the scanner
  tries them: the three constants, a number, and the three names of the floats that
  are not finite.
\<close>

definition scan_literal :: "(string \<Rightarrow> pyfloat) \<Rightarrow> string \<Rightarrow> py_error + json \<times> string" where
  "scan_literal float_of_str s =
     (if prefix ''null'' s then Inr (JNull, drop 4 s)
      else if prefix ''true'' s then Inr (JBool True, drop 4 s)
      else if prefix ''false'' s then Inr (JBool False, drop 5 s)
      else
        (case match_number s of
           Some (integer, frac, exp, r) \<Rightarrow>
             if frac \<noteq> [] \<or> exp \<noteq> [] then
               Inr (JFloat (float_of_str (integer @ frac @ exp)), r)
             else Inr (JInt (int_of_str integer), r)
         | None \<Rightarrow>
             if prefix ''NaN'' s then Inr (JFloat PyNaN, drop 3 s)
             else if prefix ''Infinity'' s then Inr (JFloat (PyInf False), drop 8 s)
             else if prefix ''-Infinity'' s then Inr (JFloat (PyInf True), drop 9 s)
             else Inl JSONDecodeError))"

text \<open>
  The scanner: \<open>scan_once\<close> reads one value at the head of the text and gives it
  with the text that follows; \<open>parse_array\<close> reads the items of a list from the first
  item on, \<open>parse_object\<close> the members of a dict from the quote of the first key on.
  The three call one another along the nesting of the text, so the recursion carries
  a bound that decreases with every call; a call with the bound spent gives
  \<open>fuel_error\<close>.
\<close>

definition fuel_error :: py_error where
  "fuel_error = RaisedError ''maximum recursion depth exceeded''"

fun scan_once :: "(string \<Rightarrow> pyfloat) \<Rightarrow> nat \<Rightarrow> string \<Rightarrow> py_error + json \<times> string"
  and parse_array :: "(string \<Rightarrow> pyfloat) \<Rightarrow> nat \<Rightarrow> string \<Rightarrow> py_error + json list \<times> string"
  and parse_object ::
    "(string \<Rightarrow> pyfloat) \<Rightarrow> nat \<Rightarrow> string \<Rightarrow> py_error + (string \<times> json) list \<times> string"
where
  "scan_once float_of_str 0 s = Inl (RaisedError ''maximum recursion depth exceeded'')"
| "scan_once float_of_str (Suc n) s =
     (case s of
        [] \<Rightarrow> Inl JSONDecodeError
      | c # cs \<Rightarrow>
          if c = CHR 0x22 then and_then (scanstring cs) (\<lambda>(str, r). Inr (JStr str, r))
          else if c = CHR ''{'' then
            (case skip_ws cs of
               [] \<Rightarrow> Inl JSONDecodeError
             | d # r \<Rightarrow>
                 if d = CHR ''}'' then Inr (JObj [], r)
                 else and_then (parse_object float_of_str n (d # r))
                        (\<lambda>(pairs, r'). Inr (JObj (dict_of_pairs pairs), r')))
          else if c = CHR ''['' then
            (case skip_ws cs of
               [] \<Rightarrow> Inl JSONDecodeError
             | d # r \<Rightarrow>
                 if d = CHR '']'' then Inr (JArr [], r)
                 else and_then (parse_array float_of_str n (d # r))
                        (\<lambda>(values, r'). Inr (JArr values, r')))
          else scan_literal float_of_str s)"
| "parse_array float_of_str 0 s = Inl (RaisedError ''maximum recursion depth exceeded'')"
| "parse_array float_of_str (Suc n) s =
     and_then (scan_once float_of_str n s) (\<lambda>(v, r).
       case skip_ws r of
         [] \<Rightarrow> Inl JSONDecodeError
       | d # r' \<Rightarrow>
           if d = CHR '']'' then Inr ([v], r')
           else if d = CHR '','' then
             and_then (parse_array float_of_str n (skip_ws r'))
               (\<lambda>(values, r''). Inr (v # values, r''))
           else Inl JSONDecodeError)"
| "parse_object float_of_str 0 s = Inl (RaisedError ''maximum recursion depth exceeded'')"
| "parse_object float_of_str (Suc n) s =
     (case s of
        [] \<Rightarrow> Inl JSONDecodeError
      | q # s1 \<Rightarrow>
          if q \<noteq> CHR 0x22 then Inl JSONDecodeError
          else
            and_then (scanstring s1) (\<lambda>(key, r1).
              case skip_ws r1 of
                [] \<Rightarrow> Inl JSONDecodeError
              | colon # r2 \<Rightarrow>
                  if colon \<noteq> CHR '':'' then Inl JSONDecodeError
                  else
                    and_then (scan_once float_of_str n (skip_ws r2)) (\<lambda>(v, r3).
                      case skip_ws r3 of
                        [] \<Rightarrow> Inl JSONDecodeError
                      | d # r4 \<Rightarrow>
                          if d = CHR ''}'' then Inr ([(key, v)], r4)
                          else if d = CHR '','' then
                            and_then (parse_object float_of_str n (skip_ws r4))
                              (\<lambda>(pairs, r5). Inr ((key, v) # pairs, r5))
                          else Inl JSONDecodeError)))"

declare scan_once.simps [simp del] parse_array.simps [simp del] parse_object.simps [simp del]

text \<open>
  \<open>json.loads(s)\<close>: white space, one value, white space, and nothing after it.
  The bound handed to the scanner is more than twice the length of the text, which
  is more than the scanner ever uses (\<open>loads_total\<close> below).
\<close>

definition loads :: "(string \<Rightarrow> pyfloat) \<Rightarrow> string \<Rightarrow> py_error + json" where
  "loads float_of_str s =
     and_then (scan_once float_of_str (Suc (Suc (2 * length s))) (skip_ws s)) (\<lambda>(obj, r).
       if skip_ws r = [] then Inr obj else Inl JSONDecodeError)"

subsection \<open>Notions the round trip is stated with\<close>

text \<open>
  A text of a float as the decoder reads one: the number pattern matches all of it,
  with a fraction or an exponent.
\<close>

definition float_literal :: "string \<Rightarrow> bool" where
  "float_literal lit =
     (case match_number lit of
        Some (integer, frac, exp, r) \<Rightarrow> r = [] \<and> (frac \<noteq> [] \<or> exp \<noteq> [])
      | None \<Rightarrow> False)"

text \<open>
  What Python documents of \<open>repr\<close> on a finite float \<open>f\<close>: the text has a
  fraction or an exponent, and \<open>float(repr(f))\<close> is \<open>f\<close> again.
\<close>

definition float_ok :: "(pyfloat \<Rightarrow> string) \<Rightarrow> (string \<Rightarrow> pyfloat) \<Rightarrow> pyfloat \<Rightarrow> bool" where
  "float_ok float_repr float_of_str f =
     (case f of
        PyFinite m e \<Rightarrow> float_literal (float_repr f) \<and> float_of_str (float_repr f) = f
      | _ \<Rightarrow> True)"

text \<open>The same of every float that \<open>float(_)\<close> produces.\<close>

definition float_round_trip :: "(pyfloat \<Rightarrow> string) \<Rightarrow> (string \<Rightarrow> pyfloat) \<Rightarrow> bool" where
  "float_round_trip float_repr float_of_str =
     (\<forall>lit. float_ok float_repr float_of_str (float_of_str lit))"

text \<open>
  The values the decoder can build: the keys of every dict are distinct, and every
  finite float is one that \<open>repr\<close> gives back.
\<close>

fun wf_json :: "(pyfloat \<Rightarrow> string) \<Rightarrow> (string \<Rightarrow> pyfloat) \<Rightarrow> json \<Rightarrow> bool" where
  "wf_json R F (JFloat f) = float_ok R F f"
| "wf_json R F (JArr xs) = (\<forall>x \<in> set xs. wf_json R F x)"
| "wf_json R F (JObj kvs) = (distinct (map fst kvs) \<and> (\<forall>kv \<in> set kvs. wf_json R F (snd kv)))"
| "wf_json R F v = True"

text \<open>The text that ends a number in a serialization: nothing, a comma or a line break.\<close>

definition delimited :: "string \<Rightarrow> bool" where
  "delimited rest = (case rest of [] \<Rightarrow> True | c # cs \<Rightarrow> c = CHR '','' \<or> c = CHR 0x0A)"

text \<open>
  A result of the scanner that is not the spent bound and, when it is a value, leaves
  fewer than \<open>k\<close> characters.
\<close>

definition within :: "nat \<Rightarrow> py_error + 'a \<times> string \<Rightarrow> bool" where
  "within k res = (res \<noteq> Inl fuel_error \<and> (\<forall>x r. res = Inr (x, r) \<longrightarrow> length r < k))"

section \<open>The parser and the diagnostic as the specification words them\<close>

text \<open>
  The text fragments of a response body, read off the data: every \<open>text\<close> string of
  an \<open>output_text\<close> entry in the \<open>content\<close> list of a \<open>message\<close> item, in list
  order. \<open>spec_output_text\<close> joins all of them with newlines, as the specification
  says the parser does.
\<close>

definition entry_texts :: "json \<Rightarrow> string list" where
  "entry_texts entry =
     (case entry of
        JObj kvs \<Rightarrow>
          (if map_of kvs ''type'' = Some (JStr ''output_text'') then
             (case map_of kvs ''text'' of Some (JStr s) \<Rightarrow> [s] | _ \<Rightarrow> [])
           else [])
      | _ \<Rightarrow> [])"

definition item_texts :: "json \<Rightarrow> string list" where
  "item_texts item =
     (case item of
        JObj kvs \<Rightarrow>
          (if map_of kvs ''type'' = Some (JStr ''message'') then
             (case map_of kvs ''content'' of
                Some (JArr entries) \<Rightarrow> concat (map entry_texts entries)
              | _ \<Rightarrow> [])
           else [])
      | _ \<Rightarrow> [])"

definition output_texts :: "json \<Rightarrow> string list" where
  "output_texts body =
     (case body of
        JObj kvs \<Rightarrow>
          (case map_of kvs ''output'' of
             Some (JArr items) \<Rightarrow> concat (map item_texts items)
           | _ \<Rightarrow> [])
      | _ \<Rightarrow> [])"

definition spec_output_text :: "json \<Rightarrow> string" where
  "spec_output_text body = join_strs [CHR 0x0A] (output_texts body)"

text \<open>
  A response body as the API sends it: an object whose \<open>output\<close> is a list of objects;
  the \<open>content\<close> of a \<open>message\<close> item, when present, is a list of objects; the
  \<open>text\<close> of an \<open>output_text\<close> entry, when present, is a string.
\<close>

definition wf_entry :: "json \<Rightarrow> bool" where
  "wf_entry entry =
     (case entry of
        JObj kvs \<Rightarrow>
          (case map_of kvs ''text'' of
             None \<Rightarrow> True
           | Some (JStr s) \<Rightarrow> True
           | Some _ \<Rightarrow> map_of kvs ''type'' \<noteq> Some (JStr ''output_text''))
      | _ \<Rightarrow> False)"

definition wf_item :: "json \<Rightarrow> bool" where
  "wf_item item =
     (case item of
        JObj kvs \<Rightarrow>
          (case map_of kvs ''content'' of
             None \<Rightarrow> True
           | Some (JArr entries) \<Rightarrow>
               map_of kvs ''type'' \<noteq> Some (JStr ''message'') \<or> list_all wf_entry entries
           | Some _ \<Rightarrow> map_of kvs ''type'' \<noteq> Some (JStr ''message''))
      | _ \<Rightarrow> False)"

definition wf_response :: "json \<Rightarrow> bool" where
  "wf_response body =
     (case body of
        JObj kvs \<Rightarrow>
          (case map_of kvs ''output'' of
             Some (JArr items) \<Rightarrow> list_all wf_item items
           | _ \<Rightarrow> False)
      | _ \<Rightarrow> False)"

text \<open>
  The diagnostic detail as the specification words it: the summary of the \<open>error\<close>
  object when the body is a JSON object with one, the first 1000 characters of the raw
  text otherwise. A field the \<open>error\<close> object lacks is the empty string.
\<close>

definition structured_error :: "http_response \<Rightarrow> (string \<times> json) list option" where
  "structured_error resp =
     (case resp_json resp of
        Inr (JObj kvs) \<Rightarrow> (case map_of kvs ''error'' of Some (JObj err) \<Rightarrow> Some err | _ \<Rightarrow> None)
      | _ \<Rightarrow> None)"

definition error_field :: "(string \<times> json) list \<Rightarrow> string \<Rightarrow> json" where
  "error_field err k = (case map_of err k of None \<Rightarrow> JStr [] | Some v \<Rightarrow> v)"

definition error_summary :: "(json \<Rightarrow> string) \<Rightarrow> (string \<times> json) list \<Rightarrow> string" where
  "error_summary repr err =
     py_strip (py_format repr (error_field err ''message'') @ '' (type=''
               @ py_format repr (error_field err ''type'') @ '', code=''
               @ py_format repr (error_field err ''code'') @ '')'')"

definition spec_detail :: "(json \<Rightarrow> string) \<Rightarrow> http_response \<Rightarrow> string" where
  "spec_detail repr resp =
     (case structured_error resp of
        Some err \<Rightarrow> error_summary repr err
      | None \<Rightarrow> take 1000 (resp_text resp))"

definition spec_diagnostic :: "(json \<Rightarrow> string) \<Rightarrow> http_response \<Rightarrow> string" where
  "spec_diagnostic repr resp =
     ''HTTP '' @ str_int (status_code resp) @ '' '' @ reason resp @ '': ''
     @ spec_detail repr resp
     @ (if status_code resp = 401 \<or> status_code resp = 403 \<or> status_code resp = 404
        then access_hint else [])"

section \<open>Facts about the string operations\<close>

text \<open>The models of \<open>in\<close>, \<open>split\<close> and \<open>strip\<close> on values Python gives.\<close>

lemma py_split_examples:
  "py_split '','' ''a,b,,c'' = [''a'', ''b'', [], ''c'']"
  "py_split '','' [] = [[]]"
  "py_split ''aa'' ''aaa'' = [[], ''a'']"
  "py_split ''id='' ''uc?id=abc&export=download'' = [''uc?'', ''abc&export=download'']"
  "py_split ''/file/d/'' ''x/file/d/file/d/abc/view'' = [''x'', ''file/d/abc/view'']"
  by simp_all

lemma py_in_examples:
  "py_in ''id='' ''open?id=abc''"
  "\<not> py_in ''id='' ''file/d/abc/view''"
  "py_in [] []"
  by simp_all

lemma py_strip_examples:
  "py_strip '' (type=, code=)'' = ''(type=, code=)''"
  "py_strip ''  two words  '' = ''two words''"
  by (simp_all add: py_strip_def py_isspace_def)

lemma str_int_examples:
  "str_int 404 = ''404''"
  "str_int 0 = ''0''"
  "str_int (- 12) = ''-12''"
  by (simp_all add: str_int_def str_nat.simps)

lemma py_in_prefix: "prefix sub s \<Longrightarrow> py_in sub s"
  by (cases s) auto

lemma py_in_iff: "py_in sub s \<longleftrightarrow> (\<exists>a b. s = a @ sub @ b)"
proof (induction s)
  case Nil
  then show ?case by auto
next
  case (Cons c cs)
  show ?case
  proof
    assume "py_in sub (c # cs)"
    then consider "prefix sub (c # cs)" | "py_in sub cs" by auto
    then show "\<exists>a b. c # cs = a @ sub @ b"
    proof cases
      case 1
      then obtain b where "c # cs = sub @ b" by (auto simp: prefix_def)
      then have "c # cs = [] @ sub @ b" by simp
      then show ?thesis by blast
    next
      case 2
      with Cons.IH obtain a b where "cs = a @ sub @ b" by blast
      then have "c # cs = (c # a) @ sub @ b" by simp
      then show ?thesis by blast
    qed
  next
    assume "\<exists>a b. c # cs = a @ sub @ b"
    then obtain a b where ab: "c # cs = a @ sub @ b" by blast
    show "py_in sub (c # cs)"
    proof (cases a)
      case Nil
      with ab have "prefix sub (c # cs)" by (simp add: prefix_def)
      then show ?thesis by simp
    next
      case (Cons a0 as)
      with ab have "cs = as @ sub @ b" by simp
      with Cons.IH have "py_in sub cs" by blast
      then show ?thesis by simp
    qed
  qed
qed

lemma py_in_append_left: "py_in sub a \<Longrightarrow> py_in sub (a @ b)"
  unfolding py_in_iff by (metis append.assoc)

lemma py_in_append_right: "py_in sub b \<Longrightarrow> py_in sub (a @ b)"
  unfolding py_in_iff by (metis append.assoc)

lemma py_split_nonempty: "py_split sep s \<noteq> []"
proof (induction sep s rule: py_split.induct)
  case (1 sep)
  then show ?case by simp
next
  case (2 sep c cs)
  then show ?case by (cases "py_split sep cs") auto
qed

lemma py_split_absent: "\<not> py_in sep s \<Longrightarrow> py_split sep s = [s]"
  by (induction s) auto

lemma py_split_first:
  "sep \<noteq> [] \<Longrightarrow> \<not> py_in sep (pre @ butlast sep)
   \<Longrightarrow> py_split sep (pre @ sep @ rest) = pre # py_split sep rest"
proof (induction pre)
  case Nil
  then obtain s ss where sep: "sep = s # ss" by (cases sep) auto
  then show ?case by simp
next
  case (Cons c cs)
  have np: "\<not> prefix sep (c # cs @ sep @ rest)"
  proof
    assume "prefix sep (c # cs @ sep @ rest)"
    then have "prefix sep (((c # cs) @ butlast sep) @ (last sep # rest))"
      using Cons.prems(1) by (metis append.assoc append_Cons append_Nil snoc_eq_iff_butlast Cons_eq_appendI append_butlast_last_id)
    moreover have "length sep \<le> length ((c # cs) @ butlast sep)" by simp
    ultimately have "prefix sep ((c # cs) @ butlast sep)"
      by (metis prefix_length_prefix prefixI prefix_order.refl append_prefixD prefix_append)
    then show False using Cons.prems(2) py_in_prefix by blast
  qed
  have "\<not> py_in sep (cs @ butlast sep)" using Cons.prems(2) by simp
  with Cons.IH Cons.prems(1) have "py_split sep (cs @ sep @ rest) = cs # py_split sep rest"
    by blast
  with np show ?case by simp
qed


lemma length_push_char: "ps \<noteq> [] \<Longrightarrow> length (push_char c ps) = length ps"
  by (cases ps) auto

lemma last_push_char: "2 \<le> length ps \<Longrightarrow> last (push_char c ps) = last ps"
  by (cases ps) auto

lemma py_split_two: "py_in sep s \<Longrightarrow> sep \<noteq> [] \<Longrightarrow> 2 \<le> length (py_split sep s)"
proof (induction sep s rule: py_split.induct)
  case (1 sep)
  then show ?case by simp
next
  case (2 sep c cs)
  show ?case
  proof (cases "prefix sep (c # cs)")
    case True
    then show ?thesis
      using py_split_nonempty [of sep "drop (length sep - 1) cs"]
      by (cases "py_split sep (drop (length sep - 1) cs)") auto
  next
    case False
    with 2 have "2 \<le> length (py_split sep cs)" by auto
    with False show ?thesis
      by (cases "py_split sep cs") auto
  qed
qed

lemma prefix_id_eq:
  assumes "prefix ''id='' (c # cs @ ''id='' @ rest)"
  shows "\<exists>cs'. cs = ''d='' @ cs'"
proof -
  from assms have c: "c = CHR ''i''" and p: "prefix ''d='' (cs @ ''id='' @ rest)" by auto
  from p show ?thesis
    by (cases cs; cases "tl cs") auto
qed

lemma last_split_id_eq:
  "last (py_split ''id='' (xs @ ''id='' @ rest)) = last (py_split ''id='' rest)"
proof (induction "length xs" arbitrary: xs rule: less_induct)
  case less
  show ?case
  proof (cases xs)
    case Nil
    then show ?thesis using py_split_nonempty [of "''id=''" rest] by simp
  next
    case (Cons c cs)
    show ?thesis
    proof (cases "prefix ''id='' (c # cs @ ''id='' @ rest)")
      case True
      then obtain cs' where cs: "cs = ''d='' @ cs'" using prefix_id_eq by blast
      have "length cs' < length xs" using Cons cs by simp
      then have "last (py_split ''id='' (cs' @ ''id='' @ rest)) = last (py_split ''id='' rest)"
        using less by blast
      moreover have "py_split ''id='' (xs @ ''id='' @ rest) = [] # py_split ''id='' (cs' @ ''id='' @ rest)"
        using True Cons cs by simp
      ultimately show ?thesis using py_split_nonempty [of "''id=''" "cs' @ ''id='' @ rest"] by simp
    next
      case False
      have "py_in ''id='' (cs @ ''id='' @ rest)"
        unfolding py_in_iff by blast
      then have two: "2 \<le> length (py_split ''id='' (cs @ ''id='' @ rest))"
        by (rule py_split_two) simp
      have "length cs < length xs" using Cons by simp
      then have "last (py_split ''id='' (cs @ ''id='' @ rest)) = last (py_split ''id='' rest)"
        using less by blast
      moreover have "py_split ''id='' (xs @ ''id='' @ rest) = push_char c (py_split ''id='' (cs @ ''id='' @ rest))"
      proof -
        define t where "t = cs @ ''id='' @ rest"
        have "\<not> prefix ''id='' (c # t)" using False by (simp add: t_def)
        then have "py_split ''id='' (c # t) = push_char c (py_split ''id='' t)"
          by (simp only: py_split.simps if_False)
        moreover have "xs @ ''id='' @ rest = c # t" by (simp add: Cons t_def)
        ultimately show ?thesis by (simp only: t_def)
      qed
      ultimately show ?thesis using two by (simp add: last_push_char)
    qed
  qed
qed

lemma download_url_fixed:
  assumes "\<not> py_in ''&'' fid" "\<not> py_in ''id='' fid"
  shows "normalize_drive_url (download_url fid) = download_url fid"
proof -
  have d: "download_url fid = ''https://drive.google.com/uc?export=download&'' @ ''id='' @ fid"
    by (simp add: download_url_def)
  have "py_in ''drive.google.com'' (''https://'' @ ''drive.google.com'' @ (''/uc?export=download&id='' @ fid))"
    unfolding py_in_iff by blast
  then have a: "py_in ''drive.google.com'' (download_url fid)" by (simp add: download_url_def)
  have b: "py_in ''id='' (download_url fid)"
    unfolding d py_in_iff by blast
  have "last (py_split ''id='' (download_url fid)) = last (py_split ''id='' fid)"
    unfolding d by (rule last_split_id_eq)
  also have "\<dots> = fid" using assms(2) by (simp add: py_split_absent)
  finally have c: "last (py_split ''id='' (download_url fid)) = fid" .
  have e: "hd (py_split ''&'' fid) = fid" using assms(1) by (simp add: py_split_absent)
  show ?thesis
    unfolding normalize_drive_url_def [of "download_url fid"] using a b c e by simp
qed


section \<open>Drive share links: properties\<close>

lemma normalize_by_file_id:
  "normalize_drive_url url = (case drive_file_id url of None \<Rightarrow> url | Some fid \<Rightarrow> download_url fid)"
  by (simp add: normalize_drive_url_def drive_file_id_def)

text \<open>
  C10. The normalizer returns a URL unchanged when it does not contain
  \<open>drive.google.com\<close>, and when it contains neither \<open>id=\<close> nor \<open>/file/d/\<close>. When
  the file id it extracts (if any) contains neither \<open>&\<close> nor \<open>id=\<close>, normalizing
  twice gives the same string as normalizing once.
\<close>

theorem normalize_identity_idempotent:
  "(\<not> py_in ''drive.google.com'' url \<longrightarrow> normalize_drive_url url = url) \<and>
   (\<not> py_in ''id='' url \<and> \<not> py_in ''/file/d/'' url \<longrightarrow> normalize_drive_url url = url) \<and>
   ((\<forall>fid. drive_file_id url = Some fid \<longrightarrow> \<not> py_in ''&'' fid \<and> \<not> py_in ''id='' fid)
      \<longrightarrow> normalize_drive_url (normalize_drive_url url) = normalize_drive_url url)"
proof (intro conjI impI)
  assume "\<not> py_in ''drive.google.com'' url"
  then show "normalize_drive_url url = url" by (simp add: normalize_drive_url_def)
next
  assume "\<not> py_in ''id='' url \<and> \<not> py_in ''/file/d/'' url"
  then show "normalize_drive_url url = url" by (simp add: normalize_drive_url_def)
next
  assume h: "\<forall>fid. drive_file_id url = Some fid \<longrightarrow> \<not> py_in ''&'' fid \<and> \<not> py_in ''id='' fid"
  show "normalize_drive_url (normalize_drive_url url) = normalize_drive_url url"
  proof (cases "drive_file_id url")
    case None
    then show ?thesis by (simp add: normalize_by_file_id)
  next
    case (Some fid)
    with h have "\<not> py_in ''&'' fid" "\<not> py_in ''id='' fid" by auto
    then have "normalize_drive_url (download_url fid) = download_url fid"
      by (rule download_url_fixed)
    moreover have "normalize_drive_url url = download_url fid"
      using Some by (simp add: normalize_by_file_id)
    ultimately show ?thesis by simp
  qed
qed

text \<open>
  The three parts at a URL of another host, a Drive URL without a file id, and a Drive
  share link whose file id is \<open>abc\<close>.
\<close>

theorem normalize_identity_idempotent_witness:
  "normalize_drive_url ''https://example.com/a.png'' = ''https://example.com/a.png'' \<and>
   normalize_drive_url ''https://drive.google.com/drive/my-drive'' = ''https://drive.google.com/drive/my-drive'' \<and>
   drive_file_id ''https://drive.google.com/file/d/abc/view?usp=sharing'' = Some ''abc'' \<and>
   normalize_drive_url (normalize_drive_url ''https://drive.google.com/file/d/abc/view?usp=sharing'')
     = normalize_drive_url ''https://drive.google.com/file/d/abc/view?usp=sharing''"
proof -
  have a: "\<not> py_in ''drive.google.com'' ''https://example.com/a.png''" by simp
  have b: "\<not> py_in ''id='' ''https://drive.google.com/drive/my-drive'' \<and>
           \<not> py_in ''/file/d/'' ''https://drive.google.com/drive/my-drive''" by simp
  have c: "drive_file_id ''https://drive.google.com/file/d/abc/view?usp=sharing'' = Some ''abc''"
    by (simp add: drive_file_id_def)
  have d: "\<forall>fid. drive_file_id ''https://drive.google.com/file/d/abc/view?usp=sharing'' = Some fid
            \<longrightarrow> \<not> py_in ''&'' fid \<and> \<not> py_in ''id='' fid"
    unfolding c by simp
  show ?thesis
    using a b c d
      normalize_identity_idempotent [of "''https://example.com/a.png''"]
      normalize_identity_idempotent [of "''https://drive.google.com/drive/my-drive''"]
      normalize_identity_idempotent [of "''https://drive.google.com/file/d/abc/view?usp=sharing''"]
    by blast
qed

text \<open>
  Where the two share-link forms do agree. Take a file id without \<open>/\<close> and \<open>&\<close>. A
  Drive URL \<open>pre/file/d/<id>/post\<close> that contains no \<open>id=\<close> and no other
  \<open>/file/d/\<close> before or behind the one shown, and a Drive URL \<open>pre?id=<id>&post\<close>
  with no \<open>id=\<close> behind the one shown, are both rewritten to the download link of
  that id.
\<close>

lemma drive_same_id_unambiguous:
  assumes "py_in ''drive.google.com'' (pre @ ''/file/d/'' @ fid @ ''/'' @ post)"
    and "\<not> py_in ''id='' (pre @ ''/file/d/'' @ fid @ ''/'' @ post)"
    and "\<not> py_in ''/file/d/'' (pre @ ''/file/d'')"
    and "\<not> py_in ''/file/d/'' (fid @ ''/'' @ post)"
    and "\<not> py_in ''/'' fid"
    and "py_in ''drive.google.com'' (pre' @ ''?id='' @ fid @ ''&'' @ post')"
    and "\<not> py_in ''id='' (fid @ ''&'' @ post')"
    and "\<not> py_in ''&'' fid"
  shows "normalize_drive_url (pre @ ''/file/d/'' @ fid @ ''/'' @ post) = download_url fid \<and>
         normalize_drive_url (pre' @ ''?id='' @ fid @ ''&'' @ post') = download_url fid"
proof
  let ?u = "pre @ ''/file/d/'' @ fid @ ''/'' @ post"
  have occ: "py_in ''/file/d/'' ?u" unfolding py_in_iff by blast
  have "py_split ''/file/d/'' (pre @ ''/file/d/'' @ (fid @ ''/'' @ post))
          = pre # py_split ''/file/d/'' (fid @ ''/'' @ post)"
    by (rule py_split_first) (use assms(3) in simp_all)
  then have l: "last (py_split ''/file/d/'' ?u) = fid @ ''/'' @ post"
    using assms(4) by (simp add: py_split_absent)
  have "py_split ''/'' (fid @ ''/'' @ post) = fid # py_split ''/'' post"
    by (rule py_split_first) (use assms(5) in simp_all)
  then have "hd (py_split ''/'' (last (py_split ''/file/d/'' ?u))) = fid"
    using l by simp
  then show "normalize_drive_url ?u = download_url fid"
    unfolding normalize_drive_url_def [of ?u] using assms(1,2) occ by simp
next
  let ?v = "pre' @ ''?id='' @ fid @ ''&'' @ post'"
  have v: "?v = (pre' @ ''?'') @ ''id='' @ (fid @ ''&'' @ post')" by simp
  have occ: "py_in ''id='' ?v" unfolding v py_in_iff by blast
  have "last (py_split ''id='' ?v) = last (py_split ''id='' (fid @ ''&'' @ post'))"
    unfolding v by (rule last_split_id_eq)
  then have l: "last (py_split ''id='' ?v) = fid @ ''&'' @ post'"
    using assms(7) by (simp add: py_split_absent)
  have "py_split ''&'' (fid @ ''&'' @ post') = fid # py_split ''&'' post'"
    by (rule py_split_first) (use assms(8) in simp_all)
  then have "hd (py_split ''&'' (last (py_split ''id='' ?v))) = fid"
    using l by simp
  then show "normalize_drive_url ?v = download_url fid"
    unfolding normalize_drive_url_def [of ?v] using assms(6) occ by simp
qed

text \<open>The two usual share-link forms for the file id \<open>abc\<close>.\<close>

lemma drive_same_id_plain_forms:
  "normalize_drive_url ''https://drive.google.com/file/d/abc/view?usp=sharing'' = download_url ''abc'' \<and>
   normalize_drive_url ''https://drive.google.com/uc?id=abc&export=download'' = download_url ''abc''"
  using drive_same_id_unambiguous [of "''https://drive.google.com''" "''abc''" "''view?usp=sharing''"
      "''https://drive.google.com/uc''" "''export=download''"]
  by simp

text \<open>
  C2 at the failing inputs. The test \<open>"id=" in url\<close> also matches inside a longer
  parameter name. A path-form link for the file \<open>abc\<close> with the parameter \<open>ouid=1\<close>
  is rewritten to the download link of a file \<open>1\<close>, and a query-form link for
  \<open>abc\<close> with a later parameter \<open>uuid=xyz\<close> to the download link of a file \<open>xyz\<close>:
  neither is the link of \<open>abc\<close>.
\<close>

theorem drive_id_substring_slip:
  "normalize_drive_url ''https://drive.google.com/file/d/abc/view?usp=sharing&ouid=1''
     = download_url ''1'' \<and>
   normalize_drive_url ''https://drive.google.com/uc?id=abc&export=download&uuid=xyz''
     = download_url ''xyz''"
  by (simp add: normalize_drive_url_def)

section \<open>Exceptions in sequence\<close>

lemma and_then_Inr [simp]: "and_then (Inr x) f = f x"
  by (simp add: and_then_def)

lemma and_then_Inl [simp]: "and_then (Inl e) f = Inl e"
  by (simp add: and_then_def)

section \<open>Required keys\<close>

lemma missing_loop_dict:
  "missing_loop ks (JObj kvs) = Inr (filter (\<lambda>k. map_of kvs k = None) ks)"
  by (induction ks) (auto simp: map_of_eq_None_iff)

text \<open>
  C3. For a decoded JSON object the check returns, in the order of the fixed list, the
  required keys that the object lacks: a key is reported exactly when it is one of the
  nine and is not a key of the object.
\<close>

theorem missing_keys_exact:
  "missing_loop required_fields (JObj kvs)
     = Inr (filter (\<lambda>k. map_of kvs k = None) required_fields) \<and>
   (\<forall>k. k \<in> set (filter (\<lambda>k. map_of kvs k = None) required_fields)
          \<longleftrightarrow> k \<in> set required_fields \<and> k \<notin> fst ` set kvs)"
  by (auto simp: missing_loop_dict map_of_eq_None_iff)

text \<open>
  An object with three of the nine keys and one key of its own: the other six are
  reported.
\<close>

theorem missing_keys_exact_witness:
  "missing_loop required_fields
     (JObj [(''flavors_list'', JArr [JStr ''Strazzberry'']), (''brand_name'', JStr ''Not found''),
            (''main_color'', JArr [JStr ''red'']), (''note'', JNull)])
   = Inr [''multiple_descriptors'', ''extraction_evidence'', ''nicotine_content'',
          ''size_or_volume'', ''warning_label_present'', ''warning_label_location'']"
  using missing_keys_exact
    [of "[(''flavors_list'', JArr [JStr ''Strazzberry'']), (''brand_name'', JStr ''Not found''),
          (''main_color'', JArr [JStr ''red'']), (''note'', JNull)]"]
  by (simp add: required_fields_def)

text \<open>
  On the page: for a decoded object the step shows it, warns exactly when a required key
  is missing, and offers the download. A decoded number is shown, and the membership test
  then raises \<open>TypeError\<close>, which the handler for \<open>JSONDecodeError\<close> does not catch.
\<close>

lemma show_result_object:
  assumes "last_output_text st = Some output_text"
    and "output_text \<noteq> []"
    and "json_loads output_text = Inr (JObj kvs)"
  shows "show_result json_loads json_dumps st
           = ([ShowJson (JObj kvs)]
              @ (if \<exists>k \<in> set required_fields. map_of kvs k = None then
                   [Warning (''JSON missing required fields: ''
                             @ join_strs '', ''
                                 (filter (\<lambda>k. map_of kvs k = None) required_fields))]
                 else [])
              @ [DownloadButton ''Download JSON'' (json_dumps (JObj kvs))
                   ''extraction.json'' ''application/json''],
              None)"
  using assms by (simp add: show_result_def missing_loop_dict filter_empty_conv)

lemma show_result_number:
  assumes "last_output_text st = Some output_text"
    and "output_text \<noteq> []"
    and "json_loads output_text = Inr (JInt n)"
  shows "show_result json_loads json_dumps st = ([ShowJson (JInt n)], Some TypeError)"
  using assms by (simp add: show_result_def required_fields_def)

section \<open>Result display: output that is not JSON\<close>

lemma missing_loop_container:
  "(\<exists>kvs. v = JObj kvs) \<or> (\<exists>xs. v = JArr xs) \<or> (\<exists>s. v = JStr s)
   \<Longrightarrow> \<exists>ms. missing_loop ks v = Inr ms"
  by (induction ks) auto

lemma missing_loop_scalar:
  "(\<forall>kvs. v \<noteq> JObj kvs) \<Longrightarrow> (\<forall>xs. v \<noteq> JArr xs) \<Longrightarrow> (\<forall>s. v \<noteq> JStr s)
   \<Longrightarrow> missing_loop (k # ks) v = Inl TypeError"
  by (cases v) simp_all

text \<open>
  With a non-empty stored output text, the whole picture: the caught case, and an
  exception leaves the step exactly when \<open>json.loads\<close> raises something other than
  \<open>JSONDecodeError\<close> or returns a value that is neither a dict, a list nor a str.
\<close>

lemma show_result_exception_iff:
  assumes "last_output_text st = Some output_text"
    and "output_text \<noteq> []"
  shows "(json_loads output_text = Inl JSONDecodeError \<longrightarrow>
            show_result json_loads json_dumps st
              = ([Warning ''Output is not valid JSON. Showing raw text.'', ShowCode output_text],
                 None)) \<and>
         (snd (show_result json_loads json_dumps st) \<noteq> None \<longleftrightarrow>
            (\<exists>e. json_loads output_text = Inl e \<and> e \<noteq> JSONDecodeError) \<or>
            (\<exists>v. json_loads output_text = Inr v \<and> (\<forall>kvs. v \<noteq> JObj kvs)
                  \<and> (\<forall>xs. v \<noteq> JArr xs) \<and> (\<forall>s. v \<noteq> JStr s)))"
proof (intro conjI impI)
  assume "json_loads output_text = Inl JSONDecodeError"
  with assms show "show_result json_loads json_dumps st
      = ([Warning ''Output is not valid JSON. Showing raw text.'', ShowCode output_text], None)"
    by (simp add: show_result_def)
next
  show "snd (show_result json_loads json_dumps st) \<noteq> None \<longleftrightarrow>
            (\<exists>e. json_loads output_text = Inl e \<and> e \<noteq> JSONDecodeError) \<or>
            (\<exists>v. json_loads output_text = Inr v \<and> (\<forall>kvs. v \<noteq> JObj kvs)
                  \<and> (\<forall>xs. v \<noteq> JArr xs) \<and> (\<forall>s. v \<noteq> JStr s))"
  proof (cases "json_loads output_text")
    case (Inl e)
    with assms show ?thesis
      by (cases e) (simp_all add: show_result_def)
  next
    case (Inr v)
    show ?thesis
    proof (cases "(\<exists>kvs. v = JObj kvs) \<or> (\<exists>xs. v = JArr xs) \<or> (\<exists>s. v = JStr s)")
      case True
      from missing_loop_container [OF True] obtain ms
        where "missing_loop required_fields v = Inr ms" by blast
      with assms Inr True show ?thesis
        by (auto simp add: show_result_def)
    next
      case False
      then have a: "\<forall>kvs. v \<noteq> JObj kvs" and b: "\<forall>xs. v \<noteq> JArr xs"
        and c: "\<forall>s. v \<noteq> JStr s" by auto
      obtain k ks where "required_fields = k # ks" by (simp add: required_fields_def)
      then have "missing_loop required_fields v = Inl TypeError"
        using missing_loop_scalar [OF a b c, of k ks] by simp
      with assms Inr False show ?thesis
        by (auto simp add: show_result_def)
    qed
  qed
qed

text \<open>
  C9, amended. With a non-empty stored output text: when \<open>json.loads\<close> raises
  \<open>JSONDecodeError\<close>, the display step shows the warning and the raw text and no
  exception leaves it; when \<open>json.loads\<close> raises any other exception, nothing is
  shown and that exception leaves the step, since only \<open>JSONDecodeError\<close> is caught.
\<close>

theorem show_result_invalid_json:
  assumes "last_output_text st = Some output_text"
    and "output_text \<noteq> []"
  shows "(json_loads output_text = Inl JSONDecodeError \<longrightarrow>
            show_result json_loads json_dumps st
              = ([Warning ''Output is not valid JSON. Showing raw text.'', ShowCode output_text],
                 None)) \<and>
         (\<forall>e. json_loads output_text = Inl e \<and> e \<noteq> JSONDecodeError \<longrightarrow>
            show_result json_loads json_dumps st = ([], Some e))"
proof (intro conjI impI allI)
  assume "json_loads output_text = Inl JSONDecodeError"
  with assms show "show_result json_loads json_dumps st
      = ([Warning ''Output is not valid JSON. Showing raw text.'', ShowCode output_text], None)"
    by (simp add: show_result_def)
next
  fix e
  assume "json_loads output_text = Inl e \<and> e \<noteq> JSONDecodeError"
  with assms show "show_result json_loads json_dumps st = ([], Some e)"
    by (cases e) (simp_all add: show_result_def)
qed

text \<open>
  The scenario of the specification, where the model answers in prose, and a decoder
  that raises another exception.
\<close>

theorem show_result_invalid_json_witness:
  "show_result (\<lambda>s. if s = ''{}'' then Inr (JObj []) else Inl JSONDecodeError) (\<lambda>v. ''{}'')
     \<lparr>last_output_text = Some ''I cannot process this image'',
      last_response_json = Some (JObj [])\<rparr>
   = ([Warning ''Output is not valid JSON. Showing raw text.'',
       ShowCode ''I cannot process this image''], None) \<and>
   show_result (\<lambda>s. Inl (RaisedError ''maximum recursion depth exceeded'')) (\<lambda>v. ''{}'')
     \<lparr>last_output_text = Some ''[[[['', last_response_json = Some (JObj [])\<rparr>
   = ([], Some (RaisedError ''maximum recursion depth exceeded''))"
  using show_result_invalid_json
    [of "\<lparr>last_output_text = Some ''I cannot process this image'',
          last_response_json = Some (JObj [])\<rparr>"
        "''I cannot process this image''"
        "\<lambda>s. if s = ''{}'' then Inr (JObj []) else Inl JSONDecodeError"
        "\<lambda>v. ''{}''"]
    show_result_invalid_json
    [of "\<lparr>last_output_text = Some ''[[[['', last_response_json = Some (JObj [])\<rparr>"
        "''[[[[''"
        "\<lambda>s. Inl (RaisedError ''maximum recursion depth exceeded'')"
        "\<lambda>v. ''{}''"]
  by simp

text \<open>
  C9 as stated fails. Neither text is valid JSON. On two thousand opening brackets
  \<open>json.loads\<close> raises \<open>RecursionError\<close>, which the handler does not catch. The text
  \<open>NaN\<close> is accepted by \<open>json.loads\<close> as a float; it is shown, and the membership
  test on it raises \<open>TypeError\<close>. In both cases the raw text is not shown and an
  exception leaves the step.
\<close>

theorem show_result_counterexample:
  "show_result
     (\<lambda>s. if s = replicate 2000 (CHR ''['')
          then Inl (RaisedError ''maximum recursion depth exceeded'')
          else Inl JSONDecodeError)
     (\<lambda>v. [])
     \<lparr>last_output_text = Some (replicate 2000 (CHR ''['')), last_response_json = None\<rparr>
   = ([], Some (RaisedError ''maximum recursion depth exceeded'')) \<and>
   show_result
     (\<lambda>s. if s = ''NaN'' then Inr (JFloat PyNaN) else Inl JSONDecodeError)
     (\<lambda>v. [])
     \<lparr>last_output_text = Some ''NaN'', last_response_json = None\<rparr>
   = ([ShowJson (JFloat PyNaN)], Some TypeError)"
  by (simp add: show_result_def required_fields_def)

section \<open>Uploaded files\<close>

text \<open>The test vectors of RFC 4648 (the bytes of \<open>f\<close>, \<open>fo\<close>, \<open>foo\<close>, ...).\<close>

lemma b64encode_rfc4648:
  "b64encode [102] = ''Zg==''"
  "b64encode [102, 111] = ''Zm8=''"
  "b64encode [102, 111, 111] = ''Zm9v''"
  "b64encode [102, 111, 111, 98] = ''Zm9vYg==''"
  "b64encode [102, 111, 111, 98, 97] = ''Zm9vYmE=''"
  "b64encode [102, 111, 111, 98, 97, 114] = ''Zm9vYmFy''"
  "b64encode [255, 254, 253] = ''//79''"
  by (simp_all add: b64_char_def)

lemma b64encode_empty_iff: "b64encode bs = [] \<longleftrightarrow> bs = []"
  by (induction bs rule: b64encode.induct) auto

lemma length_b64encode: "length (b64encode bs) = 4 * ((length bs + 2) div 3)"
proof (induction bs rule: b64encode.induct)
  case (4 a b c rest)
  have "(length (a # b # c # rest) + 2) div 3 = Suc ((length rest + 2) div 3)" by simp
  with 4 show ?case by simp
qed simp_all

text \<open>
  C7. The loader returns \<open>None\<close> exactly when there is no file or the file has no
  bytes. Otherwise it returns \<open>data:<mime>;base64,<payload>\<close>, where the mime type is
  the declared one, or \<open>application/octet-stream\<close> when none (or an empty one) is
  declared, and the payload is the Base64 text of the bytes, which is not empty.
\<close>

theorem file_to_data_url_result:
  "(file_to_data_url uf = None \<longleftrightarrow> uf = None \<or> (\<exists>f. uf = Some f \<and> file_bytes f = [])) \<and>
   (\<forall>f. uf = Some f \<and> file_bytes f \<noteq> [] \<longrightarrow>
      (\<exists>mime.
         file_to_data_url uf = Some (''data:'' @ mime @ '';base64,'' @ b64encode (file_bytes f)) \<and>
         (file_type f = None \<or> file_type f = Some [] \<longrightarrow> mime = ''application/octet-stream'') \<and>
         (\<forall>t. file_type f = Some t \<and> t \<noteq> [] \<longrightarrow> mime = t)) \<and>
      b64encode (file_bytes f) \<noteq> [])"
proof (intro conjI allI impI)
  show "file_to_data_url uf = None \<longleftrightarrow> uf = None \<or> (\<exists>f. uf = Some f \<and> file_bytes f = [])"
    by (auto simp: file_to_data_url_def Let_def split: option.splits)
next
  fix f
  assume a: "uf = Some f \<and> file_bytes f \<noteq> []"
  then show "b64encode (file_bytes f) \<noteq> []" by (simp add: b64encode_empty_iff)
  show "\<exists>mime.
         file_to_data_url uf = Some (''data:'' @ mime @ '';base64,'' @ b64encode (file_bytes f)) \<and>
         (file_type f = None \<or> file_type f = Some [] \<longrightarrow> mime = ''application/octet-stream'') \<and>
         (\<forall>t. file_type f = Some t \<and> t \<noteq> [] \<longrightarrow> mime = t)"
  proof (cases "file_type f")
    case None
    with a show ?thesis by (simp add: file_to_data_url_def)
  next
    case (Some t)
    with a show ?thesis by (cases "t = []") (simp_all add: file_to_data_url_def)
  qed
qed

text \<open>
  No file, an empty file, a PNG of three bytes, and one byte without a declared type.
\<close>

theorem file_to_data_url_result_witness:
  "file_to_data_url None = None \<and>
   file_to_data_url (Some \<lparr>file_bytes = [], file_type = Some ''image/png''\<rparr>) = None \<and>
   file_to_data_url (Some \<lparr>file_bytes = [102, 111, 111], file_type = Some ''image/png''\<rparr>)
     = Some ''data:image/png;base64,Zm9v'' \<and>
   file_to_data_url (Some \<lparr>file_bytes = [102], file_type = None\<rparr>)
     = Some ''data:application/octet-stream;base64,Zg==''"
  using file_to_data_url_result [of None]
    file_to_data_url_result [of "Some \<lparr>file_bytes = [], file_type = Some ''image/png''\<rparr>"]
    file_to_data_url_result
      [of "Some \<lparr>file_bytes = [102, 111, 111], file_type = Some ''image/png''\<rparr>"]
    file_to_data_url_result [of "Some \<lparr>file_bytes = [102], file_type = None\<rparr>"]
  by (simp add: b64_char_def)

section \<open>Credential validation: outcomes\<close>

text \<open>
  C6, amended. For a non-empty key (the only case in which the request is sent): a
  response whose status is not from 400 to 599 gives "valid" (every 2xx response, and
  also a final 1xx or 3xx response); among responses, the result is "Invalid API key"
  exactly for status 401; any other status from 400 to 599 gives
  \<open>HTTP <status> <reason>\<close>; a raised exception gives its text.
\<close>

theorem validate_api_key_outcomes:
  assumes "api_key \<noteq> []"
  shows "(\<forall>resp. net (models_request api_key) = Returns resp \<longrightarrow>
            (\<not> (400 \<le> status_code resp \<and> status_code resp < 600) \<longrightarrow>
               validate_api_key net api_key = (True, ''API key looks valid'')) \<and>
            (validate_api_key net api_key = (False, ''Invalid API key'')
               \<longleftrightarrow> status_code resp = 401) \<and>
            (400 \<le> status_code resp \<and> status_code resp < 600 \<and> status_code resp \<noteq> 401 \<longrightarrow>
               validate_api_key net api_key
                 = (False, ''HTTP '' @ str_int (status_code resp) @ '' '' @ reason resp))) \<and>
         (\<forall>exc. net (models_request api_key) = Raises exc \<longrightarrow>
            validate_api_key net api_key = (False, exc))"
  using assms by (auto simp: validate_api_key_def ok_def)

text \<open>
  Status 200, 401 and 429, and a timeout.
\<close>

theorem validate_api_key_outcomes_witness:
  "validate_api_key
     (\<lambda>req. Returns \<lparr>status_code = 200, reason = ''OK'', resp_headers = (\<lambda>k. None),
                     resp_content = [], resp_text = [], resp_json = Inl JSONDecodeError\<rparr>)
     ''sk-test'' = (True, ''API key looks valid'') \<and>
   validate_api_key
     (\<lambda>req. Returns \<lparr>status_code = 401, reason = ''Unauthorized'', resp_headers = (\<lambda>k. None),
                     resp_content = [], resp_text = [], resp_json = Inl JSONDecodeError\<rparr>)
     ''sk-test'' = (False, ''Invalid API key'') \<and>
   validate_api_key
     (\<lambda>req. Returns \<lparr>status_code = 429, reason = ''Too Many Requests'',
                     resp_headers = (\<lambda>k. None), resp_content = [], resp_text = [],
                     resp_json = Inl JSONDecodeError\<rparr>)
     ''sk-test'' = (False, ''HTTP 429 Too Many Requests'') \<and>
   validate_api_key (\<lambda>req. Raises ''Read timed out.'') ''sk-test'' = (False, ''Read timed out.'')"
proof -
  have k: "''sk-test'' \<noteq> []" by simp
  note t = validate_api_key_outcomes [OF k]
  have a: "validate_api_key
     (\<lambda>req. Returns \<lparr>status_code = 200, reason = ''OK'', resp_headers = (\<lambda>k. None),
                     resp_content = [], resp_text = [], resp_json = Inl JSONDecodeError\<rparr>)
     ''sk-test'' = (True, ''API key looks valid'')"
    using t [of "\<lambda>req. Returns \<lparr>status_code = 200, reason = ''OK'', resp_headers = (\<lambda>k. None),
                     resp_content = [], resp_text = [], resp_json = Inl JSONDecodeError\<rparr>"]
    by simp
  have b: "validate_api_key
     (\<lambda>req. Returns \<lparr>status_code = 401, reason = ''Unauthorized'', resp_headers = (\<lambda>k. None),
                     resp_content = [], resp_text = [], resp_json = Inl JSONDecodeError\<rparr>)
     ''sk-test'' = (False, ''Invalid API key'')"
    using t [of "\<lambda>req. Returns \<lparr>status_code = 401, reason = ''Unauthorized'', resp_headers = (\<lambda>k. None),
                     resp_content = [], resp_text = [], resp_json = Inl JSONDecodeError\<rparr>"]
    by simp
  have c: "validate_api_key
     (\<lambda>req. Returns \<lparr>status_code = 429, reason = ''Too Many Requests'',
                     resp_headers = (\<lambda>k. None), resp_content = [], resp_text = [],
                     resp_json = Inl JSONDecodeError\<rparr>)
     ''sk-test'' = (False, ''HTTP 429 Too Many Requests'')"
    using t [of "\<lambda>req. Returns \<lparr>status_code = 429, reason = ''Too Many Requests'',
                     resp_headers = (\<lambda>k. None), resp_content = [], resp_text = [],
                     resp_json = Inl JSONDecodeError\<rparr>"]
    by (simp add: ok_def str_int_def str_nat.simps)
  have d: "validate_api_key (\<lambda>req. Raises ''Read timed out.'') ''sk-test'' = (False, ''Read timed out.'')"
    using t [of "\<lambda>req. Raises ''Read timed out.''"] by simp
  from a b c d show ?thesis by simp
qed

text \<open>
  C6 as stated fails: a final response with status 304 is not a success, yet the key is
  reported valid and the status is not reported.
\<close>

theorem validate_api_key_counterexample:
  "validate_api_key
     (\<lambda>req. Returns \<lparr>status_code = 304, reason = ''Not Modified'', resp_headers = (\<lambda>k. None),
                     resp_content = [], resp_text = [], resp_json = Inl JSONDecodeError\<rparr>)
     ''sk-test'' = (True, ''API key looks valid'') \<and>
   validate_api_key
     (\<lambda>req. Returns \<lparr>status_code = 304, reason = ''Not Modified'', resp_headers = (\<lambda>k. None),
                     resp_content = [], resp_text = [], resp_json = Inl JSONDecodeError\<rparr>)
     ''sk-test'' \<noteq> (False, ''HTTP 304 Not Modified'')"
  by (simp add: validate_api_key_def ok_def)


section \<open>Extracting the output text\<close>

lemma str_items_map: "str_items (map JStr ss) = Inr ss"
  by (induction ss) auto

lemma content_loop_wf:
  "list_all wf_entry es \<Longrightarrow>
   \<exists>new. content_loop es texts = Inr (texts @ new) \<and>
         filter py_truthy new = map JStr (filter (\<lambda>t. t \<noteq> []) (concat (map entry_texts es)))"
proof (induction es arbitrary: texts)
  case Nil
  then show ?case by simp
next
  case (Cons e es)
  from Cons.prems have we: "wf_entry e" and wes: "list_all wf_entry es" by auto
  from we obtain kvs where e: "e = JObj kvs" by (auto simp: wf_entry_def split: json.splits)
  show ?case
  proof (cases "map_of kvs ''type'' = Some (JStr ''output_text'')")
    case False
    then have step: "content_loop (e # es) texts = content_loop es texts"
      by (auto simp: e dict_get_def split: option.splits)
    have "entry_texts e = []" using False by (simp add: entry_texts_def e)
    with Cons.IH [OF wes, of texts] step show ?thesis by simp
  next
    case True
    define t where "t = (case map_of kvs ''text'' of None \<Rightarrow> JStr [] | Some v \<Rightarrow> v)"
    have step: "content_loop (e # es) texts = content_loop es (texts @ [t])"
      using True by (simp add: e dict_get_def t_def)
    from we True obtain s where ts: "t = JStr s" and et: "entry_texts e = (if map_of kvs ''text'' = None then [] else [s])"
      and emp: "map_of kvs ''text'' = None \<Longrightarrow> s = []"
      by (auto simp: wf_entry_def e t_def entry_texts_def split: option.splits json.splits)
    from Cons.IH [OF wes, of "texts @ [t]"] obtain new where
      n: "content_loop es (texts @ [t]) = Inr ((texts @ [t]) @ new)"
      and f: "filter py_truthy new = map JStr (filter (\<lambda>t. t \<noteq> []) (concat (map entry_texts es)))"
      by blast
    have "content_loop (e # es) texts = Inr (texts @ (t # new))" using step n by simp
    moreover have "filter py_truthy (t # new)
        = map JStr (filter (\<lambda>t. t \<noteq> []) (concat (map entry_texts (e # es))))"
      using f ts et emp by auto
    ultimately show ?thesis by blast
  qed
qed

lemma item_loop_wf:
  "list_all wf_item items \<Longrightarrow>
   \<exists>new. item_loop items texts = Inr (texts @ new) \<and>
         filter py_truthy new = map JStr (filter (\<lambda>t. t \<noteq> []) (concat (map item_texts items)))"
proof (induction items arbitrary: texts)
  case Nil
  then show ?case by simp
next
  case (Cons i items)
  from Cons.prems have wi: "wf_item i" and wis: "list_all wf_item items" by auto
  from wi obtain kvs where i: "i = JObj kvs" by (auto simp: wf_item_def split: json.splits)
  show ?case
  proof (cases "map_of kvs ''type'' = Some (JStr ''message'')")
    case False
    then have step: "item_loop (i # items) texts = item_loop items texts"
      by (auto simp: i dict_get_def split: option.splits)
    have "item_texts i = []" using False by (simp add: item_texts_def i)
    with Cons.IH [OF wis, of texts] step show ?thesis by simp
  next
    case True
    from wi True consider "map_of kvs ''content'' = None"
      | es where "map_of kvs ''content'' = Some (JArr es)" "list_all wf_entry es"
      by (auto simp: wf_item_def i split: option.splits json.splits)
    then obtain es where es: "list_all wf_entry es"
      and cl: "item_loop (i # items) texts
                 = and_then (content_loop es texts) (\<lambda>texts'. item_loop items texts')"
      and it: "item_texts i = concat (map entry_texts es)"
    proof cases
      case 1
      show ?thesis
        by (rule that [of "[]"]) (use 1 True in \<open>simp_all add: i dict_get_def py_iter_def item_texts_def\<close>)
    next
      case (2 es)
      show ?thesis
        by (rule that [of es]) (use 2 True in \<open>simp_all add: i dict_get_def py_iter_def item_texts_def\<close>)
    qed
    from content_loop_wf [OF es, of texts] obtain new1 where
      n1: "content_loop es texts = Inr (texts @ new1)"
      and f1: "filter py_truthy new1 = map JStr (filter (\<lambda>t. t \<noteq> []) (concat (map entry_texts es)))"
      by blast
    from Cons.IH [OF wis, of "texts @ new1"] obtain new2 where
      n2: "item_loop items (texts @ new1) = Inr ((texts @ new1) @ new2)"
      and f2: "filter py_truthy new2 = map JStr (filter (\<lambda>t. t \<noteq> []) (concat (map item_texts items)))"
      by blast
    have "item_loop (i # items) texts = Inr (texts @ (new1 @ new2))"
      using cl n1 n2 by simp
    moreover have "filter py_truthy (new1 @ new2)
        = map JStr (filter (\<lambda>t. t \<noteq> []) (concat (map item_texts (i # items))))"
      using f1 f2 it by simp
    ultimately show ?thesis by blast
  qed
qed

text \<open>
  C1, amended. For a well-formed response body the parser returns the newline-joined
  concatenation, in list order, of the non-empty \<open>text\<close> strings of the
  \<open>output_text\<close> entries of the \<open>message\<close> items; it does not raise.
\<close>

theorem extract_output_text_nonempty_texts:
  assumes "wf_response body"
  shows "extract_output_text body
           = Inr (join_strs [CHR 0x0A] (filter (\<lambda>t. t \<noteq> []) (output_texts body)))"
proof -
  from assms obtain kvs where b: "body = JObj kvs"
    by (cases body) (simp_all add: wf_response_def)
  with assms obtain v where v: "map_of kvs ''output'' = Some v"
    by (cases "map_of kvs ''output''") (simp_all add: wf_response_def)
  with assms b obtain items where o: "map_of kvs ''output'' = Some (JArr items)"
    and w: "list_all wf_item items"
    by (cases v) (simp_all add: wf_response_def)
  from item_loop_wf [OF w, of "[]"] obtain new where
    n: "item_loop items [] = Inr new"
    and f: "filter py_truthy new = map JStr (filter (\<lambda>t. t \<noteq> []) (concat (map item_texts items)))"
    by auto
  have ot: "output_texts (JObj kvs) = concat (map item_texts items)"
    by (simp add: output_texts_def o)
  show ?thesis
    by (simp add: extract_output_text_def b o dict_get_def py_iter_def n f py_join_def
        str_items_map ot)
qed

text \<open>
  A body with a reasoning item and a message whose entries are two texts, a refusal
  and an empty text.
\<close>

theorem extract_output_text_nonempty_texts_witness:
  "extract_output_text
     (JObj [(''output'',
        JArr [JObj [(''type'', JStr ''reasoning'')],
              JObj [(''type'', JStr ''message''),
                    (''content'',
                     JArr [JObj [(''type'', JStr ''output_text''), (''text'', JStr ''[1,'')],
                           JObj [(''type'', JStr ''refusal''), (''refusal'', JStr ''no'')],
                           JObj [(''type'', JStr ''output_text''), (''text'', JStr [])],
                           JObj [(''type'', JStr ''output_text''), (''text'', JStr ''2]'')]])]])])
   = Inr (''[1,'' @ [CHR 0x0A] @ ''2]'')"
proof -
  have w: "wf_response
     (JObj [(''output'',
        JArr [JObj [(''type'', JStr ''reasoning'')],
              JObj [(''type'', JStr ''message''),
                    (''content'',
                     JArr [JObj [(''type'', JStr ''output_text''), (''text'', JStr ''[1,'')],
                           JObj [(''type'', JStr ''refusal''), (''refusal'', JStr ''no'')],
                           JObj [(''type'', JStr ''output_text''), (''text'', JStr [])],
                           JObj [(''type'', JStr ''output_text''), (''text'', JStr ''2]'')]])]])])"
    by (simp add: wf_response_def wf_item_def wf_entry_def)
  show ?thesis
    using extract_output_text_nonempty_texts [OF w]
    by (simp add: output_texts_def item_texts_def entry_texts_def)
qed

text \<open>
  C1 as stated fails: with the texts \<open>a\<close>, the empty string and \<open>b\<close> the parser
  returns \<open>a\<close> and \<open>b\<close> on two lines, not the three lines that joining every text
  gives.
\<close>

theorem extract_output_text_counterexample:
  "wf_response
     (JObj [(''output'',
        JArr [JObj [(''type'', JStr ''message''),
                    (''content'',
                     JArr [JObj [(''type'', JStr ''output_text''), (''text'', JStr ''a'')],
                           JObj [(''type'', JStr ''output_text''), (''text'', JStr [])],
                           JObj [(''type'', JStr ''output_text''), (''text'', JStr ''b'')]])]])]) \<and>
   extract_output_text
     (JObj [(''output'',
        JArr [JObj [(''type'', JStr ''message''),
                    (''content'',
                     JArr [JObj [(''type'', JStr ''output_text''), (''text'', JStr ''a'')],
                           JObj [(''type'', JStr ''output_text''), (''text'', JStr [])],
                           JObj [(''type'', JStr ''output_text''), (''text'', JStr ''b'')]])]])])
   \<noteq> Inr (spec_output_text
     (JObj [(''output'',
        JArr [JObj [(''type'', JStr ''message''),
                    (''content'',
                     JArr [JObj [(''type'', JStr ''output_text''), (''text'', JStr ''a'')],
                           JObj [(''type'', JStr ''output_text''), (''text'', JStr [])],
                           JObj [(''type'', JStr ''output_text''), (''text'', JStr ''b'')]])]])]))"
  by (simp add: wf_response_def wf_item_def wf_entry_def extract_output_text_def dict_get_def
      py_iter_def py_join_def spec_output_text_def output_texts_def item_texts_def entry_texts_def)

section \<open>Extraction call: the diagnostic of a failed request\<close>

lemma error_detail_structured:
  assumes "resp_json resp = Inr (JObj kvs)" "map_of kvs ''error'' = Some (JObj err)"
  shows "error_detail repr resp = error_summary repr err"
  using assms by (simp add: error_detail_def dict_get_def error_summary_def error_field_def)

lemma error_summary_empty: "error_summary repr [] = ''(type=, code=)''"
  by (simp add: error_summary_def error_field_def py_format_def py_strip_def py_isspace_def)

lemma error_detail_no_error:
  assumes "resp_json resp = Inr (JObj kvs)" "map_of kvs ''error'' = None"
  shows "error_detail repr resp = ''(type=, code=)''"
proof -
  have "error_detail repr resp = error_summary repr []"
    using assms by (simp add: error_detail_def dict_get_def error_summary_def error_field_def)
  then show ?thesis by (simp add: error_summary_empty)
qed

lemma error_detail_raw:
  assumes "(\<forall>kvs. resp_json resp \<noteq> Inr (JObj kvs)) \<or>
           (\<exists>kvs v. resp_json resp = Inr (JObj kvs) \<and> map_of kvs ''error'' = Some v
                    \<and> (\<forall>err. v \<noteq> JObj err))"
  shows "error_detail repr resp = take 1000 (resp_text resp)"
  using assms
proof
  assume a: "\<forall>kvs. resp_json resp \<noteq> Inr (JObj kvs)"
  show ?thesis
  proof (cases "resp_json resp")
    case (Inl e)
    then show ?thesis by (simp add: error_detail_def)
  next
    case (Inr body)
    with a have "\<forall>kvs. body \<noteq> JObj kvs" by simp
    then have "dict_get body ''error'' (JObj []) = Inl AttributeError"
      by (cases body) (simp_all add: dict_get_def)
    with Inr show ?thesis by (simp add: error_detail_def)
  qed
next
  assume "\<exists>kvs v. resp_json resp = Inr (JObj kvs) \<and> map_of kvs ''error'' = Some v
                    \<and> (\<forall>err. v \<noteq> JObj err)"
  then obtain kvs v where r: "resp_json resp = Inr (JObj kvs)"
    and e: "map_of kvs ''error'' = Some v" and n: "\<forall>err. v \<noteq> JObj err" by blast
  from n have "dict_get v ''message'' (JStr []) = Inl AttributeError"
    by (cases v) (simp_all add: dict_get_def)
  with r e show ?thesis by (simp add: error_detail_def dict_get_def)
qed

text \<open>
  C5, amended. For a response with a status from 400 to 599 (the responses for which
  \<open>Response.ok\<close> is false) the call raises \<open>RuntimeError\<close> with the message
  \<open>HTTP <status> <reason>: <detail><hint>\<close>; the hint is the access hint for status
  401, 403 and 404 and empty otherwise. The detail is the stripped summary
  \<open><message> (type=<type>, code=<code>)\<close> of the \<open>error\<close> object when the body is a
  JSON object with one; it is \<open>(type=, code=)\<close> when the body is a JSON object without
  an \<open>error\<close> member; and it is the first 1000 characters of the raw text when the
  body is not a JSON object or its \<open>error\<close> member is not an object. For a response with
  any other status, a final 1xx or 3xx response included, the call raises no
  \<open>RuntimeError\<close> and returns what \<open>Response.json()\<close> gives.
\<close>

theorem call_openai_failure_message:
  assumes "net (responses_request api_key system_prompt user_prompt image_url) = Returns resp"
  shows "(400 \<le> status_code resp \<and> status_code resp < 600 \<longrightarrow>
            call_openai net repr api_key system_prompt user_prompt image_url
              = Inl (RuntimeError
                  (''HTTP '' @ str_int (status_code resp) @ '' '' @ reason resp @ '': ''
                   @ error_detail repr resp
                   @ (if status_code resp = 401 \<or> status_code resp = 403 \<or> status_code resp = 404
                      then access_hint else []))) \<and>
            (\<forall>kvs err. resp_json resp = Inr (JObj kvs) \<and> map_of kvs ''error'' = Some (JObj err)
               \<longrightarrow> error_detail repr resp = error_summary repr err) \<and>
            (\<forall>kvs. resp_json resp = Inr (JObj kvs) \<and> map_of kvs ''error'' = None
               \<longrightarrow> error_detail repr resp = ''(type=, code=)'') \<and>
            ((\<forall>kvs. resp_json resp \<noteq> Inr (JObj kvs)) \<or>
             (\<exists>kvs v. resp_json resp = Inr (JObj kvs) \<and> map_of kvs ''error'' = Some v
                      \<and> (\<forall>err. v \<noteq> JObj err))
               \<longrightarrow> error_detail repr resp = take 1000 (resp_text resp)
                   \<and> length (error_detail repr resp) \<le> 1000)) \<and>
         (\<not> (400 \<le> status_code resp \<and> status_code resp < 600) \<longrightarrow>
            call_openai net repr api_key system_prompt user_prompt image_url = resp_json resp)"
proof (intro conjI allI impI)
  assume "400 \<le> status_code resp \<and> status_code resp < 600"
  then show "call_openai net repr api_key system_prompt user_prompt image_url
          = Inl (RuntimeError
              (''HTTP '' @ str_int (status_code resp) @ '' '' @ reason resp @ '': ''
               @ error_detail repr resp
               @ (if status_code resp = 401 \<or> status_code resp = 403 \<or> status_code resp = 404
                  then access_hint else [])))"
    using assms by (simp add: call_openai_def Let_def ok_def)
next
  fix kvs err
  assume "resp_json resp = Inr (JObj kvs) \<and> map_of kvs ''error'' = Some (JObj err)"
  then show "error_detail repr resp = error_summary repr err"
    by (simp add: error_detail_structured)
next
  fix kvs
  assume "resp_json resp = Inr (JObj kvs) \<and> map_of kvs ''error'' = None"
  then show "error_detail repr resp = ''(type=, code=)''"
    by (simp add: error_detail_no_error)
next
  assume a: "(\<forall>kvs. resp_json resp \<noteq> Inr (JObj kvs)) \<or>
            (\<exists>kvs v. resp_json resp = Inr (JObj kvs) \<and> map_of kvs ''error'' = Some v
                     \<and> (\<forall>err. v \<noteq> JObj err))"
  then show "error_detail repr resp = take 1000 (resp_text resp)"
    by (rule error_detail_raw)
  then show "length (error_detail repr resp) \<le> 1000" by simp
next
  assume "\<not> (400 \<le> status_code resp \<and> status_code resp < 600)"
  then show "call_openai net repr api_key system_prompt user_prompt image_url = resp_json resp"
    using assms by (simp add: call_openai_def ok_def)
qed

text \<open>
  A 401 response with the error object the API sends for a wrong key, a 500 response
  whose body is the empty JSON object, a 502 response with an HTML body, and a 304
  response.
\<close>

theorem call_openai_failure_message_witness:
  "call_openai
     (\<lambda>req. Returns
        \<lparr>status_code = 401, reason = ''Unauthorized'', resp_headers = (\<lambda>k. None),
         resp_content = [], resp_text = ''raw body'',
         resp_json = Inr (JObj [(''error'',
           JObj [(''message'', JStr ''Incorrect API key provided''),
                 (''type'', JStr ''invalid_request_error''), (''param'', JNull),
                 (''code'', JStr ''invalid_api_key'')])])\<rparr>)
     (\<lambda>v. []) ''sk-test'' ''system'' ''user'' ''data:image/png;base64,AAAA''
   = Inl (RuntimeError (''HTTP 401 Unauthorized: Incorrect API key provided ''
        @ ''(type=invalid_request_error, code=invalid_api_key)'' @ access_hint)) \<and>
   call_openai
     (\<lambda>req. Returns
        \<lparr>status_code = 500, reason = ''Internal Server Error'', resp_headers = (\<lambda>k. None),
         resp_content = [], resp_text = ''{}'', resp_json = Inr (JObj [])\<rparr>)
     (\<lambda>v. []) ''sk-test'' ''system'' ''user'' ''data:image/png;base64,AAAA''
   = Inl (RuntimeError ''HTTP 500 Internal Server Error: (type=, code=)'') \<and>
   call_openai
     (\<lambda>req. Returns
        \<lparr>status_code = 502, reason = ''Bad Gateway'', resp_headers = (\<lambda>k. None),
         resp_content = [], resp_text = ''<html>Bad Gateway</html>'',
         resp_json = Inl JSONDecodeError\<rparr>)
     (\<lambda>v. []) ''sk-test'' ''system'' ''user'' ''data:image/png;base64,AAAA''
   = Inl (RuntimeError ''HTTP 502 Bad Gateway: <html>Bad Gateway</html>'') \<and>
   call_openai
     (\<lambda>req. Returns
        \<lparr>status_code = 304, reason = ''Not Modified'', resp_headers = (\<lambda>k. None),
         resp_content = [], resp_text = ''{}'', resp_json = Inr (JObj [])\<rparr>)
     (\<lambda>v. []) ''sk-test'' ''system'' ''user'' ''data:image/png;base64,AAAA''
   = Inr (JObj [])"
proof (intro conjI)
  define resp where "resp =
        \<lparr>status_code = 401, reason = ''Unauthorized'', resp_headers = (\<lambda>k. None),
         resp_content = [], resp_text = ''raw body'',
         resp_json = Inr (JObj [(''error'',
           JObj [(''message'', JStr ''Incorrect API key provided''),
                 (''type'', JStr ''invalid_request_error''), (''param'', JNull),
                 (''code'', JStr ''invalid_api_key'')])])\<rparr>"
  have h1: "(\<lambda>req. Returns resp)
      (responses_request ''sk-test'' ''system'' ''user'' ''data:image/png;base64,AAAA'')
      = Returns resp" by simp
  have h2: "400 \<le> status_code resp \<and> status_code resp < 600" by (simp add: resp_def)
  note t = call_openai_failure_message [OF h1, of "\<lambda>v. []", THEN conjunct1, THEN mp, OF h2]
  from t [THEN conjunct2, THEN conjunct1]
  have "error_detail (\<lambda>v. []) resp = error_summary (\<lambda>v. [])
           [(''message'', JStr ''Incorrect API key provided''),
            (''type'', JStr ''invalid_request_error''), (''param'', JNull),
            (''code'', JStr ''invalid_api_key'')]"
    by (simp add: resp_def)
  then have "error_detail (\<lambda>v. []) resp
      = ''Incorrect API key provided (type=invalid_request_error, code=invalid_api_key)''"
    by (simp add: error_summary_def error_field_def py_format_def py_strip_def py_isspace_def)
  with t [THEN conjunct1]
  have "call_openai (\<lambda>req. Returns resp) (\<lambda>v. []) ''sk-test'' ''system'' ''user''
           ''data:image/png;base64,AAAA''
        = Inl (RuntimeError (''HTTP 401 Unauthorized: Incorrect API key provided ''
            @ ''(type=invalid_request_error, code=invalid_api_key)'' @ access_hint))"
    by (simp add: resp_def str_int_def str_nat.simps)
  then show "call_openai
     (\<lambda>req. Returns
        \<lparr>status_code = 401, reason = ''Unauthorized'', resp_headers = (\<lambda>k. None),
         resp_content = [], resp_text = ''raw body'',
         resp_json = Inr (JObj [(''error'',
           JObj [(''message'', JStr ''Incorrect API key provided''),
                 (''type'', JStr ''invalid_request_error''), (''param'', JNull),
                 (''code'', JStr ''invalid_api_key'')])])\<rparr>)
     (\<lambda>v. []) ''sk-test'' ''system'' ''user'' ''data:image/png;base64,AAAA''
   = Inl (RuntimeError (''HTTP 401 Unauthorized: Incorrect API key provided ''
        @ ''(type=invalid_request_error, code=invalid_api_key)'' @ access_hint))"
    by (simp only: resp_def)
next
  define resp where "resp =
        \<lparr>status_code = 500, reason = ''Internal Server Error'', resp_headers = (\<lambda>k. None),
         resp_content = [], resp_text = ''{}'', resp_json = Inr (JObj [])\<rparr>"
  have h1: "(\<lambda>req. Returns resp)
      (responses_request ''sk-test'' ''system'' ''user'' ''data:image/png;base64,AAAA'')
      = Returns resp" by simp
  have h2: "400 \<le> status_code resp \<and> status_code resp < 600" by (simp add: resp_def)
  note t = call_openai_failure_message [OF h1, of "\<lambda>v. []", THEN conjunct1, THEN mp, OF h2]
  from t [THEN conjunct2, THEN conjunct2, THEN conjunct1]
  have "error_detail (\<lambda>v. []) resp = ''(type=, code=)''"
    by (simp add: resp_def)
  with t [THEN conjunct1]
  have "call_openai (\<lambda>req. Returns resp) (\<lambda>v. []) ''sk-test'' ''system'' ''user''
           ''data:image/png;base64,AAAA''
        = Inl (RuntimeError ''HTTP 500 Internal Server Error: (type=, code=)'')"
    by (simp add: resp_def str_int_def str_nat.simps)
  then show "call_openai
     (\<lambda>req. Returns
        \<lparr>status_code = 500, reason = ''Internal Server Error'', resp_headers = (\<lambda>k. None),
         resp_content = [], resp_text = ''{}'', resp_json = Inr (JObj [])\<rparr>)
     (\<lambda>v. []) ''sk-test'' ''system'' ''user'' ''data:image/png;base64,AAAA''
   = Inl (RuntimeError ''HTTP 500 Internal Server Error: (type=, code=)'')"
    by (simp only: resp_def)
next
  define resp where "resp =
        \<lparr>status_code = 502, reason = ''Bad Gateway'', resp_headers = (\<lambda>k. None),
         resp_content = [], resp_text = ''<html>Bad Gateway</html>'',
         resp_json = Inl JSONDecodeError\<rparr>"
  have h1: "(\<lambda>req. Returns resp)
      (responses_request ''sk-test'' ''system'' ''user'' ''data:image/png;base64,AAAA'')
      = Returns resp" by simp
  have h2: "400 \<le> status_code resp \<and> status_code resp < 600" by (simp add: resp_def)
  note t = call_openai_failure_message [OF h1, of "\<lambda>v. []", THEN conjunct1, THEN mp, OF h2]
  have n: "\<forall>kvs. resp_json resp \<noteq> Inr (JObj kvs)" by (simp add: resp_def)
  from t [THEN conjunct2, THEN conjunct2, THEN conjunct2] n
  have "error_detail (\<lambda>v. []) resp = take 1000 (resp_text resp)"
    by blast
  then have "error_detail (\<lambda>v. []) resp = ''<html>Bad Gateway</html>''"
    by (simp add: resp_def)
  with t [THEN conjunct1]
  have "call_openai (\<lambda>req. Returns resp) (\<lambda>v. []) ''sk-test'' ''system'' ''user''
           ''data:image/png;base64,AAAA''
        = Inl (RuntimeError ''HTTP 502 Bad Gateway: <html>Bad Gateway</html>'')"
    by (simp add: resp_def str_int_def str_nat.simps)
  then show "call_openai
     (\<lambda>req. Returns
        \<lparr>status_code = 502, reason = ''Bad Gateway'', resp_headers = (\<lambda>k. None),
         resp_content = [], resp_text = ''<html>Bad Gateway</html>'',
         resp_json = Inl JSONDecodeError\<rparr>)
     (\<lambda>v. []) ''sk-test'' ''system'' ''user'' ''data:image/png;base64,AAAA''
   = Inl (RuntimeError ''HTTP 502 Bad Gateway: <html>Bad Gateway</html>'')"
    by (simp only: resp_def)
next
  define resp where "resp =
        \<lparr>status_code = 304, reason = ''Not Modified'', resp_headers = (\<lambda>k. None),
         resp_content = [], resp_text = ''{}'', resp_json = Inr (JObj [])\<rparr>"
  have h1: "(\<lambda>req. Returns resp)
      (responses_request ''sk-test'' ''system'' ''user'' ''data:image/png;base64,AAAA'')
      = Returns resp" by simp
  have h2: "\<not> (400 \<le> status_code resp \<and> status_code resp < 600)" by (simp add: resp_def)
  from call_openai_failure_message [OF h1, of "\<lambda>v. []", THEN conjunct2, THEN mp, OF h2]
  have "call_openai (\<lambda>req. Returns resp) (\<lambda>v. []) ''sk-test'' ''system'' ''user''
           ''data:image/png;base64,AAAA'' = Inr (JObj [])"
    by (simp add: resp_def)
  then show "call_openai
     (\<lambda>req. Returns
        \<lparr>status_code = 304, reason = ''Not Modified'', resp_headers = (\<lambda>k. None),
         resp_content = [], resp_text = ''{}'', resp_json = Inr (JObj [])\<rparr>)
     (\<lambda>v. []) ''sk-test'' ''system'' ''user'' ''data:image/png;base64,AAAA''
   = Inr (JObj [])"
    by (simp only: resp_def)
qed

text \<open>
  C5 as stated fails: a status 500 response whose body is the JSON object \<open>{}\<close> has
  no structured error, yet the detail is \<open>(type=, code=)\<close> and not the raw text; and
  for a status 304 response, which is not a success, nothing is raised.
\<close>

theorem call_openai_counterexample:
  "\<not> ok \<lparr>status_code = 500, reason = ''Internal Server Error'', resp_headers = (\<lambda>k. None),
           resp_content = [], resp_text = ''{}'', resp_json = Inr (JObj [])\<rparr> \<and>
   call_openai
     (\<lambda>req. Returns \<lparr>status_code = 500, reason = ''Internal Server Error'',
                     resp_headers = (\<lambda>k. None), resp_content = [], resp_text = ''{}'',
                     resp_json = Inr (JObj [])\<rparr>)
     (\<lambda>v. []) ''sk-test'' ''system'' ''user'' ''data:image/png;base64,AAAA''
   \<noteq> Inl (RuntimeError
         (spec_diagnostic (\<lambda>v. [])
            \<lparr>status_code = 500, reason = ''Internal Server Error'', resp_headers = (\<lambda>k. None),
             resp_content = [], resp_text = ''{}'', resp_json = Inr (JObj [])\<rparr>)) \<and>
   call_openai
     (\<lambda>req. Returns \<lparr>status_code = 304, reason = ''Not Modified'',
                     resp_headers = (\<lambda>k. None), resp_content = [], resp_text = ''{}'',
                     resp_json = Inr (JObj [])\<rparr>)
     (\<lambda>v. []) ''sk-test'' ''system'' ''user'' ''data:image/png;base64,AAAA''
   = Inr (JObj [])"
  by (simp add: call_openai_def ok_def error_detail_def dict_get_def spec_diagnostic_def
      spec_detail_def structured_error_def py_format_def py_strip_def py_isspace_def)

section \<open>Image fetch: result shapes\<close>

text \<open>
  The result is either the bytes with an image content type and no error, or no bytes,
  no content type and a message; the message is empty only when the request raised an
  exception whose text is empty.
\<close>

lemma fetch_image_url_shapes:
  "(\<exists>bytes content_type.
      fetch_image_url net url = (Some bytes, Some content_type, None)
      \<and> prefix ''image/'' content_type) \<or>
   (\<exists>msg. fetch_image_url net url = (None, None, Some msg)
      \<and> (msg = [] \<longrightarrow> net (image_request url) = Raises []))"
  by (auto simp: fetch_image_url_def Let_def split: http_outcome.splits)

text \<open>
  C4 at the failing input: when the request raises an exception whose \<open>str\<close> is
  empty, the result is \<open>(None, None, "")\<close>: neither image bytes nor a non-empty error
  message.
\<close>

theorem fetch_image_url_empty_error:
  "fetch_image_url (\<lambda>req. Raises []) ''https://example.com/a.png'' = (None, None, Some [])"
  by (simp add: fetch_image_url_def)

section \<open>JSON strings: an encoded str decodes to itself\<close>

lemma hex_val_hex_digit: "d < 16 \<Longrightarrow> hex_val (hex_digit d) = Some d"
proof -
  assume "d < 16"
  then have "d \<in> {0, 1, 2, 3, 4, 5, 6, 7, 8, 9, 10, 11, 12, 13, 14, 15}" by simp arith
  then show ?thesis
    by (auto simp: hex_val_def hex_digit_def)
qed

lemma decode_control:
  assumes "n < 32"
  shows "decode_uXXXX (CHR ''0'' # CHR ''0'' # hex_digit (n div 16) # hex_digit (n mod 16) # t)
           = Some n"
proof -
  have a: "hex_val (hex_digit (n div 16)) = Some (n div 16)"
    using assms by (intro hex_val_hex_digit) auto
  have b: "hex_val (hex_digit (n mod 16)) = Some (n mod 16)"
    by (intro hex_val_hex_digit) auto
  have z: "hex_val (CHR ''0'') = Some 0" by (simp add: hex_val_def)
  show ?thesis by (simp add: decode_uXXXX_def a b z)
qed

lemma scanstring_escape:
  "scanstring (escape_char c @ t)
     = and_then (scanstring t) (\<lambda>(chunk, r). Inr (c # chunk, r))"
proof -
  consider "c = CHR 0x22" | "c = CHR 0x5C" | "c = CHR 0x0A" | "c = CHR 0x0D" | "c = CHR 0x09"
    | "c = CHR 0x08" | "c = CHR 0x0C"
    | "c \<noteq> CHR 0x22" "c \<noteq> CHR 0x5C" "c \<noteq> CHR 0x0A" "c \<noteq> CHR 0x0D" "c \<noteq> CHR 0x09"
      "c \<noteq> CHR 0x08" "c \<noteq> CHR 0x0C" "(of_char c :: nat) < 32"
    | "c \<noteq> CHR 0x22" "c \<noteq> CHR 0x5C" "\<not> (of_char c :: nat) < 32"
    by blast
  then show ?thesis
  proof cases
    case 8
    have d: "decode_uXXXX (CHR ''0'' # CHR ''0'' # hex_digit ((of_char c :: nat) div 16)
                # hex_digit ((of_char c :: nat) mod 16) # t) = Some (of_char c)"
      using 8 by (intro decode_control) simp
    have lt: "(of_char c :: nat) < 256" using 8 by simp
    show ?thesis using 8 lt by (simp add: escape_char_def d)
  next
    case 9
    then have "escape_char c = [c]" by (auto simp: escape_char_def)
    with 9 show ?thesis by simp
  qed (simp_all add: escape_char_def backslash_def)
qed

lemma scanstring_encoded:
  "scanstring (concat (map escape_char s) @ CHR 0x22 # rest) = Inr (s, rest)"
proof (induction s)
  case Nil
  then show ?case by simp
next
  case (Cons c s)
  have "scanstring (concat (map escape_char (c # s)) @ CHR 0x22 # rest)
          = scanstring (escape_char c @ (concat (map escape_char s) @ CHR 0x22 # rest))"
    by simp
  also have "\<dots> = and_then (scanstring (concat (map escape_char s) @ CHR 0x22 # rest))
                      (\<lambda>(chunk, r). Inr (c # chunk, r))"
    by (rule scanstring_escape)
  also have "\<dots> = Inr (c # s, rest)" by (simp add: Cons.IH)
  finally show ?case .
qed

section \<open>JSON numbers\<close>

text \<open>What follows a number in a serialization does not change the match.\<close>

lemma delimited_cases:
  assumes "delimited rest"
  obtains "rest = []" | c cs where "rest = c # cs" "c = CHR '','' \<or> c = CHR 0x0A"
  using assms by (cases rest) (auto simp: delimited_def)

lemma delimited_not_digit: "delimited rest \<Longrightarrow> rest = [] \<or> \<not> is_digit (hd rest)"
  by (erule delimited_cases) (auto simp: is_digit_def)

lemma takeWhile_digit_append:
  "delimited rest \<Longrightarrow> takeWhile is_digit (cs @ rest) = takeWhile is_digit cs"
  using delimited_not_digit [of rest]
  by (induction cs) (auto simp: takeWhile_eq_Nil_iff)

lemma dropWhile_digit_append:
  "delimited rest \<Longrightarrow> dropWhile is_digit (cs @ rest) = dropWhile is_digit cs @ rest"
  using delimited_not_digit [of rest]
  by (induction cs) (auto simp: dropWhile_eq_self_iff)

lemma scan_digits_append:
  assumes "delimited rest"
  shows "scan_digits (s @ rest) = map_option (\<lambda>(ds, r). (ds, r @ rest)) (scan_digits s)"
proof (cases s)
  case Nil
  from assms show ?thesis
    by (rule delimited_cases) (auto simp: Nil scan_digits_def is_digit_def)
next
  case (Cons c cs)
  have nd: "rest = [] \<or> \<not> is_digit (hd rest)" using assms by (rule delimited_not_digit)
  show ?thesis
    by (simp add: Cons scan_digits_def takeWhile_digit_append [OF assms] dropWhile_digit_append [OF assms])
qed

lemma scan_integer_append:
  assumes "delimited rest"
  shows "scan_integer (s @ rest) = map_option (\<lambda>(ds, r). (ds, r @ rest)) (scan_integer s)"
proof (cases s)
  case Nil
  from assms show ?thesis
    by (rule delimited_cases) (auto simp: Nil scan_integer_def scan_digits_def is_digit_def)
next
  case (Cons c cs)
  show ?thesis
  proof (cases "c = CHR ''-''")
    case True
    then show ?thesis
      by (simp add: Cons scan_integer_def scan_digits_append [OF assms] split: option.splits)
  next
    case False
    have "scan_integer ((c # cs) @ rest) = scan_digits ((c # cs) @ rest)"
      using False by (simp add: scan_integer_def)
    moreover have "scan_integer (c # cs) = scan_digits (c # cs)"
      using False by (simp add: scan_integer_def)
    ultimately show ?thesis by (simp only: Cons scan_digits_append [OF assms])
  qed
qed

lemma scan_frac_append:
  assumes "delimited rest"
  shows "scan_frac (s @ rest) = (fst (scan_frac s), snd (scan_frac s) @ rest)"
proof -
  have nd: "rest = [] \<or> \<not> is_digit (hd rest)" using assms by (rule delimited_not_digit)
  consider "s = []" | c where "s = [c]" | c d cs where "s = c # d # cs"
    by (cases s; cases "tl s") auto
  then show ?thesis
  proof cases
    case 1
    from assms show ?thesis
      by (rule delimited_cases) (auto simp: 1 scan_frac_def is_digit_def split: list.splits)
  next
    case 2
    from assms show ?thesis
      by (rule delimited_cases) (auto simp: 2 scan_frac_def is_digit_def split: list.splits)
  next
    case 3
    show ?thesis
      by (simp add: 3 scan_frac_def takeWhile_digit_append [OF assms] dropWhile_digit_append [OF assms])
  qed
qed

lemma scan_exp_append:
  assumes "delimited rest"
  shows "scan_exp (s @ rest) = (fst (scan_exp s), snd (scan_exp s) @ rest)"
proof -
  have nd: "rest = [] \<or> \<not> is_digit (hd rest)" using assms by (rule delimited_not_digit)
  consider "s = []" | c where "s = [c]" | c d where "s = [c, d]"
    | c d x xs where "s = c # d # x # xs"
    by (cases s; cases "tl s"; cases "tl (tl s)") auto
  then show ?thesis
  proof cases
    case 1
    from assms show ?thesis
      by (rule delimited_cases) (auto simp: 1 scan_exp_def is_digit_def split: list.splits)
  next
    case 2
    from assms show ?thesis
      by (rule delimited_cases) (auto simp: 2 scan_exp_def is_digit_def split: list.splits)
  next
    case 3
    from assms show ?thesis
    proof (rule delimited_cases)
      assume "rest = []"
      then show ?thesis by simp
    next
      fix r rs
      assume r: "rest = r # rs" "r = CHR '','' \<or> r = CHR 0x0A"
      then have "\<not> is_digit r" by (auto simp: is_digit_def)
      then show ?thesis
        by (simp add: 3 r(1) scan_exp_def)
    qed
  next
    case 4
    show ?thesis
      by (simp add: 4 scan_exp_def takeWhile_digit_append [OF assms] dropWhile_digit_append [OF assms])
  qed
qed

lemma match_number_append:
  assumes "delimited rest"
  shows "match_number (s @ rest)
           = map_option (\<lambda>(i, fr, ex, r). (i, fr, ex, r @ rest)) (match_number s)"
proof (cases "scan_integer s")
  case None
  then show ?thesis
    by (simp add: match_number_def scan_integer_append [OF assms])
next
  case (Some p)
  obtain i r1 where p: "p = (i, r1)" by (cases p)
  obtain fr r2 where f: "scan_frac r1 = (fr, r2)" by (cases "scan_frac r1")
  obtain ex r3 where e: "scan_exp r2 = (ex, r3)" by (cases "scan_exp r2")
  have f': "scan_frac (r1 @ rest) = (fr, r2 @ rest)"
    by (simp add: scan_frac_append [OF assms] f)
  have e': "scan_exp (r2 @ rest) = (ex, r3 @ rest)"
    by (simp add: scan_exp_append [OF assms] e)
  show ?thesis
    by (simp add: match_number_def scan_integer_append [OF assms] Some p f e f' e')
qed

text \<open>The decimal text of an int is matched whole and converts back to the int.\<close>

lemma digit_char:
  assumes "d < 10"
  shows "is_digit (''0123456789'' ! d)" and "digit_val (''0123456789'' ! d) = d"
    and "(''0123456789'' ! d = CHR ''0'') = (d = 0)" and "''0123456789'' ! d \<noteq> CHR ''-''"
proof -
  from assms have "d \<in> {0, 1, 2, 3, 4, 5, 6, 7, 8, 9}" by simp arith
  then show "is_digit (''0123456789'' ! d)" and "digit_val (''0123456789'' ! d) = d"
    and "(''0123456789'' ! d = CHR ''0'') = (d = 0)" and "''0123456789'' ! d \<noteq> CHR ''-''"
    by (auto simp: is_digit_def digit_val_def)
qed

lemma str_nat_digits: "list_all is_digit (str_nat n)"
proof (induction n rule: str_nat.induct)
  case (1 n)
  show ?case
  proof (cases "n < 10")
    case True
    then show ?thesis by (subst str_nat.simps) (simp add: digit_char)
  next
    case False
    have "n mod 10 < 10" by simp
    with False 1 show ?thesis by (subst str_nat.simps) (simp add: digit_char)
  qed
qed

lemma str_nat_nonempty: "str_nat n \<noteq> []"
  by (subst str_nat.simps) simp

lemma str_nat_head: "0 < n \<Longrightarrow> hd (str_nat n) \<noteq> CHR ''0''"
proof (induction n rule: str_nat.induct)
  case (1 n)
  show ?case
  proof (cases "n < 10")
    case True
    with 1(2) have "''0123456789'' ! n \<noteq> CHR ''0''" using digit_char(3) [of n] by simp
    with True show ?thesis by (subst str_nat.simps) (simp del: nth_Cons_numeral nth_Cons')
  next
    case False
    then have "0 < n div 10" by simp
    with False 1 have "hd (str_nat (n div 10)) \<noteq> CHR ''0''" by simp
    with False show ?thesis
      by (subst str_nat.simps) (simp add: str_nat_nonempty)
  qed
qed

lemma nat_of_digits_snoc:
  "nat_of_digits (ds @ [c]) = 10 * nat_of_digits ds + digit_val c"
  by (simp add: nat_of_digits_def)

lemma nat_of_digits_str_nat: "nat_of_digits (str_nat n) = n"
proof (induction n rule: str_nat.induct)
  case (1 n)
  show ?case
  proof (cases "n < 10")
    case True
    then show ?thesis
      by (subst str_nat.simps) (simp add: nat_of_digits_def digit_char)
  next
    case False
    have "n mod 10 < 10" by simp
    with False 1 show ?thesis
      by (subst str_nat.simps) (simp add: nat_of_digits_snoc digit_char)
  qed
qed

lemma scan_digits_str_nat: "scan_digits (str_nat n) = Some (str_nat n, [])"
proof (cases "n = 0")
  case True
  then show ?thesis by (simp add: str_nat.simps scan_digits_def)
next
  case False
  obtain c cs where s: "str_nat n = c # cs" using str_nat_nonempty [of n] by (cases "str_nat n") auto
  from str_nat_digits [of n] s have d: "is_digit c" "list_all is_digit cs" by auto
  from str_nat_head [of n] False s have "c \<noteq> CHR ''0''" by simp
  moreover from d(2) have "takeWhile is_digit cs = cs" "dropWhile is_digit cs = []"
    by (simp_all add: list_all_iff)
  ultimately show ?thesis using d(1) by (simp add: s scan_digits_def)
qed

lemma str_nat_not_minus: "hd (str_nat n) \<noteq> CHR ''-''"
proof -
  obtain c cs where s: "str_nat n = c # cs" using str_nat_nonempty [of n] by (cases "str_nat n") auto
  from str_nat_digits [of n] s have "is_digit c" by auto
  then show ?thesis by (auto simp: s is_digit_def)
qed

lemma scan_integer_str_int: "scan_integer (str_int i) = Some (str_int i, [])"
proof (cases "i < 0")
  case True
  then show ?thesis by (simp add: str_int_def scan_integer_def scan_digits_str_nat)
next
  case False
  obtain c cs where s: "str_nat (nat i) = c # cs"
    using str_nat_nonempty [of "nat i"] by (cases "str_nat (nat i)") auto
  from str_nat_not_minus [of "nat i"] s have "c \<noteq> CHR ''-''" by simp
  then have "scan_integer (str_nat (nat i)) = scan_digits (str_nat (nat i))"
    by (simp add: s scan_integer_def)
  with False show ?thesis by (simp add: str_int_def scan_digits_str_nat)
qed

lemma match_number_str_int: "match_number (str_int i) = Some (str_int i, [], [], [])"
  by (simp add: match_number_def scan_integer_str_int scan_frac_def scan_exp_def)

lemma int_of_str_str_int: "int_of_str (str_int i) = i"
proof (cases "i < 0")
  case True
  then show ?thesis by (simp add: str_int_def int_of_str_def nat_of_digits_str_nat)
next
  case False
  obtain c cs where s: "str_nat (nat i) = c # cs"
    using str_nat_nonempty [of "nat i"] by (cases "str_nat (nat i)") auto
  from str_nat_not_minus [of "nat i"] s have "c \<noteq> CHR ''-''" by simp
  then have "int_of_str (str_nat (nat i)) = int (nat_of_digits (str_nat (nat i)))"
    by (simp add: s int_of_str_def)
  with False show ?thesis by (simp add: str_int_def nat_of_digits_str_nat)
qed

lemma scan_digits_consumed:
  "scan_digits s = Some (ds, r) \<Longrightarrow> s = ds @ r \<and> ds \<noteq> [] \<and> is_digit (hd ds)"
  by (cases s) (auto simp: scan_digits_def is_digit_def split: if_splits)

lemma scan_integer_consumed:
  "scan_integer s = Some (i, r) \<Longrightarrow>
     s = i @ r \<and> i \<noteq> [] \<and> (hd i = CHR ''-'' \<or> is_digit (hd i))"
  by (cases s) (auto simp: scan_integer_def split: if_splits option.splits
      dest!: scan_digits_consumed)

lemma scan_frac_consumed: "scan_frac s = (fr, r) \<Longrightarrow> s = fr @ r"
  by (auto simp: scan_frac_def split: list.splits if_splits)

lemma scan_exp_consumed: "scan_exp s = (ex, r) \<Longrightarrow> s = ex @ r"
  by (auto simp: scan_exp_def split: list.splits if_splits)

lemma match_number_consumed:
  assumes "match_number s = Some (i, fr, ex, r)"
  shows "s = i @ fr @ ex @ r" and "i \<noteq> []" and "hd i = CHR ''-'' \<or> is_digit (hd i)"
proof -
  from assms obtain r1 where a: "scan_integer s = Some (i, r1)"
    by (auto simp: match_number_def split: option.splits prod.splits)
  with assms obtain r2 where b: "scan_frac r1 = (fr, r2)" and c: "scan_exp r2 = (ex, r)"
    by (auto simp: match_number_def split: prod.splits)
  from scan_integer_consumed [OF a] scan_frac_consumed [OF b] scan_exp_consumed [OF c]
  show "s = i @ fr @ ex @ r" and "i \<noteq> []" and "hd i = CHR ''-'' \<or> is_digit (hd i)"
    by auto
qed

section \<open>Decoding a serialization\<close>

lemma skip_ws_indent: "skip_ws (newline_indent k @ t) = skip_ws t"
  by (simp add: skip_ws_def newline_indent_def json_ws_def dropWhile_append)

lemma skip_ws_head: "\<not> json_ws c \<Longrightarrow> skip_ws (c # t) = c # t"
  by (simp add: skip_ws_def)

lemma delimited_indent: "delimited (newline_indent k @ t)"
  by (simp add: delimited_def newline_indent_def)

lemma delimited_comma: "delimited (CHR '','' # t)"
  by (simp add: delimited_def)

lemma delimited_Nil: "delimited []"
  by (simp add: delimited_def)

lemma scan_once_number:
  assumes "match_number lit = Some (i, fr, ex, [])" and "delimited rest"
  shows "scan_once F (Suc n) (lit @ rest)
           = Inr (if fr \<noteq> [] \<or> ex \<noteq> [] then JFloat (F (i @ fr @ ex)) else JInt (int_of_str i),
                  rest)"
proof -
  from match_number_consumed [OF assms(1)]
  have l: "lit = i @ fr @ ex" and i: "i \<noteq> []" and h: "hd i = CHR ''-'' \<or> is_digit (hd i)"
    by simp_all
  define t where "t = lit @ rest"
  from i l obtain c cs where t: "t = c # cs" and c: "c = CHR ''-'' \<or> is_digit c"
    using h by (cases i) (auto simp: t_def)
  have mn: "match_number t = Some (i, fr, ex, rest)"
    unfolding t_def by (simp add: match_number_append [OF assms(2)] assms(1))
  have nq: "c \<noteq> CHR 0x22" "c \<noteq> CHR ''{''" "c \<noteq> CHR ''[''" "c \<noteq> CHR ''n''" "c \<noteq> CHR ''t''"
    "c \<noteq> CHR ''f''"
    using c by (auto simp: is_digit_def)
  have "scan_once F (Suc n) t
          = Inr (if fr \<noteq> [] \<or> ex \<noteq> [] then JFloat (F (i @ fr @ ex)) else JInt (int_of_str i),
                 rest)"
    using nq mn [unfolded t] by (simp add: t scan_once.simps scan_literal_def)
  then show ?thesis by (simp only: t_def)
qed

lemma scan_once_int:
  "delimited rest \<Longrightarrow> scan_once F (Suc n) (str_int i @ rest) = Inr (JInt i, rest)"
  using scan_once_number [OF match_number_str_int, of rest F n i]
  by (simp add: int_of_str_str_int)

lemma scan_once_float:
  assumes "float_ok R F f" and "delimited rest"
  shows "scan_once F (Suc n) (dumps_float R f @ rest) = Inr (JFloat f, rest)"
proof (cases f)
  case (PyFinite m e)
  with assms(1) have fl: "float_literal (R f)" and rt: "F (R f) = f"
    by (simp_all add: float_ok_def)
  from fl obtain i fr ex where mn: "match_number (R f) = Some (i, fr, ex, [])"
    and fe: "fr \<noteq> [] \<or> ex \<noteq> []"
    by (auto simp: float_literal_def split: option.splits)
  from match_number_consumed(1) [OF mn] have "R f = i @ fr @ ex" by simp
  with scan_once_number [OF mn assms(2), of F n] fe rt PyFinite
  show ?thesis by (simp add: dumps_float_def)
next
  case (PyInf negative)
  then show ?thesis
    by (simp add: dumps_float_def match_number_def scan_integer_def scan_digits_def is_digit_def
        scan_once.simps scan_literal_def)
next
  case PyNaN
  then show ?thesis
    by (simp add: dumps_float_def match_number_def scan_integer_def scan_digits_def is_digit_def
        scan_once.simps scan_literal_def)
qed

lemma scan_once_str: "scan_once F (Suc n) (encode_str s @ rest) = Inr (JStr s, rest)"
  by (simp add: encode_str_def scanstring_encoded scan_once.simps)

lemma dumps_head:
  assumes "wf_json R F v"
  shows "\<exists>c cs. dumps_value R l v = c # cs \<and> \<not> json_ws c \<and> c \<noteq> CHR '']'' \<and> c \<noteq> CHR ''}''"
proof (cases v)
  case (JInt i)
  from match_number_consumed [OF match_number_str_int [of i]]
  obtain c cs where "str_int i = c # cs" "c = CHR ''-'' \<or> is_digit c"
    by (cases "str_int i") auto
  then show ?thesis by (auto simp: JInt json_ws_def is_digit_def)
next
  case (JFloat f)
  show ?thesis
  proof (cases f)
    case (PyFinite m e)
    with assms JFloat have "float_literal (R f)" by (simp add: float_ok_def)
    then obtain i fr ex where mn: "match_number (R f) = Some (i, fr, ex, [])"
      by (auto simp: float_literal_def split: option.splits)
    from match_number_consumed [OF mn]
    obtain c cs where "R f = c # cs" "c = CHR ''-'' \<or> is_digit c"
      by (cases i) auto
    then show ?thesis by (auto simp: JFloat PyFinite dumps_float_def json_ws_def is_digit_def)
  qed (simp_all add: JFloat dumps_float_def json_ws_def)
qed (simp_all add: json_ws_def encode_str_def)

lemma skip_ws_dumps:
  "wf_json R F v \<Longrightarrow> skip_ws (dumps_value R l v @ t) = dumps_value R l v @ t"
  using dumps_head [of R F v l] by (auto simp: skip_ws_head)

lemma join_strs_Cons:
  "join_strs sep (x # xs) = (if xs = [] then x else x @ sep @ join_strs sep xs)"
  by (cases xs) simp_all

text \<open>
  The items of a list and the members of a dict, and then every value: the scanner
  reads a serialization back, whatever follows it, given a bound above twice its
  length.
\<close>

lemma parse_array_step:
  assumes "scan_once F m (dv @ tail) = Inr (v, tail)"
  shows "parse_array F (Suc m) (dv @ tail)
           = (case skip_ws tail of
                [] \<Rightarrow> Inl JSONDecodeError
              | d # r \<Rightarrow>
                  if d = CHR '']'' then Inr ([v], r)
                  else if d = CHR '','' then
                    and_then (parse_array F m (skip_ws r)) (\<lambda>(values, r'). Inr (v # values, r'))
                  else Inl JSONDecodeError)"
  by (simp add: parse_array.simps assms)

lemma parse_object_step:
  assumes "scan_once F m (dv @ tail) = Inr (v, tail)"
    and "skip_ws (dv @ tail) = dv @ tail"
  shows "parse_object F (Suc m) (encode_str key @ '': '' @ dv @ tail)
           = (case skip_ws tail of
                [] \<Rightarrow> Inl JSONDecodeError
              | d # r \<Rightarrow>
                  if d = CHR ''}'' then Inr ([(key, v)], r)
                  else if d = CHR '','' then
                    and_then (parse_object F m (skip_ws r))
                      (\<lambda>(pairs, r'). Inr ((key, v) # pairs, r'))
                  else Inl JSONDecodeError)"
proof -
  define t where "t = dv @ tail"
  have a: "skip_ws (CHR '':'' # CHR '' '' # t) = CHR '':'' # CHR '' '' # t"
    by (simp add: skip_ws_def json_ws_def)
  have b: "skip_ws (CHR '' '' # t) = t"
    using assms(2) by (simp add: skip_ws_def json_ws_def t_def)
  have "parse_object F (Suc m) (CHR 0x22 # concat (map escape_char key)
            @ CHR 0x22 # CHR '':'' # CHR '' '' # t)
          = (case skip_ws tail of
                [] \<Rightarrow> Inl JSONDecodeError
              | d # r \<Rightarrow>
                  if d = CHR ''}'' then Inr ([(key, v)], r)
                  else if d = CHR '','' then
                    and_then (parse_object F m (skip_ws r))
                      (\<lambda>(pairs, r'). Inr ((key, v) # pairs, r'))
                  else Inl JSONDecodeError)"
    using assms(1) [folded t_def]
    by (simp add: parse_object.simps scanstring_encoded a b)
  then show ?thesis by (simp add: encode_str_def t_def)
qed

lemma skip_ws_close_array: "skip_ws (newline_indent l @ CHR '']'' # rest) = CHR '']'' # rest"
  by (simp add: skip_ws_indent skip_ws_head json_ws_def)

lemma skip_ws_close_object: "skip_ws (newline_indent l @ CHR ''}'' # rest) = CHR ''}'' # rest"
  by (simp add: skip_ws_indent skip_ws_head json_ws_def)

lemma skip_ws_comma: "skip_ws (CHR '','' # t) = CHR '','' # t"
  by (simp add: skip_ws_head json_ws_def)

lemma parse_array_items:
  assumes "\<forall>x \<in> set xs. wf_json R F x \<and>
             (\<forall>n rest. 2 * length (dumps_value R k x) \<le> n \<longrightarrow> delimited rest \<longrightarrow>
                scan_once F n (dumps_value R k x @ rest) = Inr (x, rest))"
    and "xs \<noteq> []"
    and "2 * length (join_strs (CHR '','' # newline_indent k) (map (dumps_value R k) xs)) + 1 \<le> n"
  shows "parse_array F n
           (join_strs (CHR '','' # newline_indent k) (map (dumps_value R k) xs)
            @ newline_indent l @ CHR '']'' # rest)
         = Inr (xs, rest)"
  using assms
proof (induction xs arbitrary: n)
  case Nil
  then show ?case by simp
next
  case (Cons x xs)
  let ?sep = "CHR '','' # newline_indent k"
  from Cons.prems(3) obtain m where n: "n = Suc m" by (cases n) auto
  from Cons.prems(1) have wx: "wf_json R F x"
    and px: "\<And>n rest. 2 * length (dumps_value R k x) \<le> n \<Longrightarrow> delimited rest \<Longrightarrow>
                scan_once F n (dumps_value R k x @ rest) = Inr (x, rest)"
    by auto
  define dv where "dv = dumps_value R k x"
  show ?case
  proof (cases "xs = []")
    case True
    define tail where "tail = newline_indent l @ CHR '']'' # rest"
    have fuel: "2 * length (dumps_value R k x) \<le> m" using Cons.prems(3) n True by simp
    have "scan_once F m (dv @ tail) = Inr (x, tail)"
      unfolding dv_def tail_def by (rule px [OF fuel delimited_indent])
    from parse_array_step [OF this]
    have "parse_array F (Suc m) (dv @ tail) = Inr ([x], rest)"
      by (simp add: tail_def skip_ws_close_array)
    then show ?thesis by (simp add: True n dv_def tail_def)
  next
    case False
    define T where "T = join_strs ?sep (map (dumps_value R k) xs) @ newline_indent l @ CHR '']'' # rest"
    define tail where "tail = CHR '','' # newline_indent k @ T"
    have j: "join_strs ?sep (map (dumps_value R k) (x # xs))
               = dv @ ?sep @ join_strs ?sep (map (dumps_value R k) xs)"
      using False by (simp add: join_strs_Cons dv_def)
    have "2 * length (dv @ ?sep @ join_strs ?sep (map (dumps_value R k) xs)) + 1 \<le> Suc m"
      using Cons.prems(3) by (simp only: j n)
    then have fuel: "2 * length (dumps_value R k x) \<le> m"
      and fuel': "2 * length (join_strs ?sep (map (dumps_value R k) xs)) + 1 \<le> m"
      by (simp_all add: dv_def)
    from False obtain y ys where xs: "xs = y # ys" by (cases xs) auto
    from Cons.prems(1) xs have wy: "wf_json R F y" by simp
    have head: "skip_ws T = T"
      unfolding T_def using skip_ws_dumps [OF wy, of k] by (simp add: xs join_strs_Cons)
    have ih: "parse_array F m T = Inr (xs, rest)"
      unfolding T_def using Cons.IH [OF _ False fuel'] Cons.prems(1) by simp
    have "scan_once F m (dv @ tail) = Inr (x, tail)"
      unfolding dv_def tail_def by (rule px [OF fuel delimited_comma])
    from parse_array_step [OF this]
    have "parse_array F (Suc m) (dv @ tail) = Inr (x # xs, rest)"
      by (simp add: tail_def skip_ws_comma skip_ws_indent head ih)
    moreover have "join_strs ?sep (map (dumps_value R k) (x # xs))
                     @ newline_indent l @ CHR '']'' # rest = dv @ tail"
      unfolding j by (simp add: tail_def T_def)
    ultimately show ?thesis by (simp only: n)
  qed
qed

lemma parse_object_members:
  assumes "\<forall>kv \<in> set kvs. wf_json R F (snd kv) \<and>
             (\<forall>n rest. 2 * length (dumps_value R k (snd kv)) \<le> n \<longrightarrow> delimited rest \<longrightarrow>
                scan_once F n (dumps_value R k (snd kv) @ rest) = Inr (snd kv, rest))"
    and "kvs \<noteq> []"
    and "2 * length (join_strs (CHR '','' # newline_indent k)
                      (map (\<lambda>(key, v). encode_str key @ '': '' @ dumps_value R k v) kvs)) + 1 \<le> n"
  shows "parse_object F n
           (join_strs (CHR '','' # newline_indent k)
              (map (\<lambda>(key, v). encode_str key @ '': '' @ dumps_value R k v) kvs)
            @ newline_indent l @ CHR ''}'' # rest)
         = Inr (kvs, rest)"
  using assms
proof (induction kvs arbitrary: n)
  case Nil
  then show ?case by simp
next
  case (Cons kv kvs)
  let ?sep = "CHR '','' # newline_indent k"
  let ?M = "\<lambda>(key, v). encode_str key @ '': '' @ dumps_value R k v"
  obtain key v where kv: "kv = (key, v)" by (cases kv)
  from Cons.prems(3) obtain m where n: "n = Suc m" by (cases n) auto
  from Cons.prems(1) kv have wv: "wf_json R F v"
    and pv: "\<And>n rest. 2 * length (dumps_value R k v) \<le> n \<Longrightarrow> delimited rest \<Longrightarrow>
                scan_once F n (dumps_value R k v @ rest) = Inr (v, rest)"
    by auto
  define dv where "dv = dumps_value R k v"
  have sk: "\<And>t. skip_ws (dv @ t) = dv @ t"
    unfolding dv_def by (rule skip_ws_dumps [OF wv])
  show ?case
  proof (cases "kvs = []")
    case True
    define tail where "tail = newline_indent l @ CHR ''}'' # rest"
    have "2 * length (encode_str key @ '': '' @ dv) + 1 \<le> Suc m"
      using Cons.prems(3) by (simp add: True n kv dv_def)
    then have fuel: "2 * length (dumps_value R k v) \<le> m" by (simp add: dv_def)
    have "scan_once F m (dv @ tail) = Inr (v, tail)"
      unfolding dv_def tail_def by (rule pv [OF fuel delimited_indent])
    from parse_object_step [OF this sk, of key]
    have "parse_object F (Suc m) (encode_str key @ '': '' @ dv @ tail) = Inr ([(key, v)], rest)"
      by (simp add: tail_def skip_ws_close_object)
    then show ?thesis by (simp add: True n kv dv_def tail_def)
  next
    case False
    define T where "T = join_strs ?sep (map ?M kvs) @ newline_indent l @ CHR ''}'' # rest"
    define tail where "tail = CHR '','' # newline_indent k @ T"
    have j: "join_strs ?sep (map ?M (kv # kvs))
               = (encode_str key @ '': '' @ dv) @ ?sep @ join_strs ?sep (map ?M kvs)"
      using False by (simp add: join_strs_Cons kv dv_def)
    have "2 * length ((encode_str key @ '': '' @ dv) @ ?sep @ join_strs ?sep (map ?M kvs)) + 1
            \<le> Suc m"
      using Cons.prems(3) by (simp only: j n)
    then have fuel: "2 * length (dumps_value R k v) \<le> m"
      and fuel': "2 * length (join_strs ?sep (map ?M kvs)) + 1 \<le> m"
      by (simp_all add: dv_def)
    from False obtain p ps where kvs: "kvs = p # ps" by (cases kvs) auto
    obtain key' v' where p: "p = (key', v')" by (cases p)
    have head: "skip_ws T = T"
      unfolding T_def by (simp add: kvs p join_strs_Cons encode_str_def skip_ws_head json_ws_def)
    have ih: "parse_object F m T = Inr (kvs, rest)"
      unfolding T_def using Cons.IH [OF _ False fuel'] Cons.prems(1) by simp
    have "scan_once F m (dv @ tail) = Inr (v, tail)"
      unfolding dv_def tail_def by (rule pv [OF fuel delimited_comma])
    from parse_object_step [OF this sk, of key]
    have "parse_object F (Suc m) (encode_str key @ '': '' @ dv @ tail) = Inr ((key, v) # kvs, rest)"
      by (simp add: tail_def skip_ws_comma skip_ws_indent head ih)
    moreover have "join_strs ?sep (map ?M (kv # kvs)) @ newline_indent l @ CHR ''}'' # rest
                     = encode_str key @ '': '' @ dv @ tail"
      unfolding j by (simp add: tail_def T_def)
    ultimately show ?thesis by (simp only: n kv)
  qed
qed

lemma dict_set_absent: "k \<notin> fst ` set d \<Longrightarrow> dict_set k v d = d @ [(k, v)]"
  by (induction d) auto

lemma dict_of_pairs_distinct_aux:
  "distinct (map fst (acc @ kvs)) \<Longrightarrow> foldl (\<lambda>d (k, v). dict_set k v d) acc kvs = acc @ kvs"
proof (induction kvs arbitrary: acc)
  case Nil
  then show ?case by simp
next
  case (Cons kv kvs)
  obtain k v where kv: "kv = (k, v)" by (cases kv)
  from Cons.prems have "k \<notin> fst ` set acc" by (auto simp: kv)
  then have "dict_set k v acc = acc @ [(k, v)]" by (rule dict_set_absent)
  moreover have "distinct (map fst ((acc @ [(k, v)]) @ kvs))" using Cons.prems by (simp add: kv)
  ultimately show ?case using Cons.IH [of "acc @ [(k, v)]"] by (simp add: kv)
qed

lemma dict_of_pairs_distinct: "distinct (map fst kvs) \<Longrightarrow> dict_of_pairs kvs = kvs"
  using dict_of_pairs_distinct_aux [of "[]" kvs] by (simp add: dict_of_pairs_def)

lemma dumps_nonempty: "wf_json R F v \<Longrightarrow> dumps_value R l v \<noteq> []"
  using dumps_head [of R F v l] by auto

lemma scan_once_dumps:
  "wf_json R F v \<Longrightarrow> 2 * length (dumps_value R l v) \<le> n \<Longrightarrow> delimited rest
   \<Longrightarrow> scan_once F n (dumps_value R l v @ rest) = Inr (v, rest)"
proof (induction v arbitrary: l n rest)
  case JNull
  then obtain m where "n = Suc m" by (cases n) auto
  then show ?case by (simp add: scan_once.simps scan_literal_def)
next
  case (JBool b)
  then obtain m where "n = Suc m" by (cases n) (auto split: if_splits)
  then show ?case by (simp add: scan_once.simps scan_literal_def)
next
  case (JInt i)
  from JInt(2) dumps_nonempty [OF JInt(1), of l] obtain m where "n = Suc m"
    by (cases n) auto
  with JInt(3) show ?case by (simp add: scan_once_int)
next
  case (JFloat f)
  from JFloat(2) dumps_nonempty [OF JFloat(1), of l] obtain m where "n = Suc m"
    by (cases n) auto
  with JFloat(1,3) show ?case by (simp add: scan_once_float)
next
  case (JStr s)
  from JStr(2) obtain m where "n = Suc m"
    by (cases n) (auto simp: encode_str_def)
  then show ?case by (simp add: scan_once_str)
next
  case (JArr xs)
  from JArr(3) obtain m where n: "n = Suc m" by (cases n) (auto split: if_splits)
  show ?case
  proof (cases "xs = []")
    case True
    then show ?thesis by (simp add: n scan_once.simps skip_ws_head json_ws_def)
  next
    case False
    let ?J = "join_strs (CHR '','' # newline_indent (Suc l)) (map (dumps_value R (Suc l)) xs)"
    from False obtain y ys where xs: "xs = y # ys" by (cases xs) auto
    from JArr(2) xs have wy: "wf_json R F y" by simp
    from dumps_head [OF wy, of "Suc l"] obtain c cs where
      c: "dumps_value R (Suc l) y = c # cs" "\<not> json_ws c" "c \<noteq> CHR '']''" by blast
    then have "\<exists>t. ?J @ newline_indent l @ CHR '']'' # rest = c # t"
      by (cases "ys = []") (simp_all add: xs join_strs_Cons)
    then obtain t where J: "?J @ newline_indent l @ CHR '']'' # rest = c # t" by blast
    have fuel: "2 * length ?J + 1 \<le> m" using JArr(3) n False by simp
    have ih: "\<forall>x \<in> set xs. wf_json R F x \<and>
             (\<forall>n rest. 2 * length (dumps_value R (Suc l) x) \<le> n \<longrightarrow> delimited rest \<longrightarrow>
                scan_once F n (dumps_value R (Suc l) x @ rest) = Inr (x, rest))"
      using JArr(1,2) by auto
    have pa: "parse_array F m (?J @ newline_indent l @ CHR '']'' # rest) = Inr (xs, rest)"
      by (rule parse_array_items [OF ih False fuel])
    have "scan_once F (Suc m)
            (CHR ''['' # newline_indent (Suc l) @ (?J @ newline_indent l @ CHR '']'' # rest))
          = Inr (JArr xs, rest)"
      using pa c(2,3) unfolding J
      by (simp add: scan_once.simps skip_ws_indent [of "Suc l" "c # t"] skip_ws_head)
    then show ?thesis using False by (simp add: n)
  qed
next
  case (JObj kvs)
  from JObj(3) obtain m where n: "n = Suc m" by (cases n) (auto split: if_splits)
  show ?case
  proof (cases "kvs = []")
    case True
    then show ?thesis by (simp add: n scan_once.simps skip_ws_head json_ws_def)
  next
    case False
    let ?J = "join_strs (CHR '','' # newline_indent (Suc l))
                (map (\<lambda>(key, v). encode_str key @ '': '' @ dumps_value R (Suc l) v) kvs)"
    from False obtain p ps where kvs: "kvs = p # ps" by (cases kvs) auto
    obtain key v where p: "p = (key, v)" by (cases p)
    have "\<exists>t. ?J @ newline_indent l @ CHR ''}'' # rest = CHR 0x22 # t"
      by (cases "ps = []") (simp_all add: kvs p join_strs_Cons encode_str_def)
    then obtain t where J: "?J @ newline_indent l @ CHR ''}'' # rest = CHR 0x22 # t" by blast
    have fuel: "2 * length ?J + 1 \<le> m" using JObj(3) n False by simp
    have ih: "\<forall>kv \<in> set kvs. wf_json R F (snd kv) \<and>
             (\<forall>n rest. 2 * length (dumps_value R (Suc l) (snd kv)) \<le> n \<longrightarrow> delimited rest \<longrightarrow>
                scan_once F n (dumps_value R (Suc l) (snd kv) @ rest) = Inr (snd kv, rest))"
    proof
      fix kv
      assume kv: "kv \<in> set kvs"
      then have w: "wf_json R F (snd kv)" using JObj(2) by simp
      have "snd kv \<in> Basic_BNFs.snds kv" by (cases kv) simp
      from JObj(1) [OF kv this w] w
      show "wf_json R F (snd kv) \<and>
             (\<forall>n rest. 2 * length (dumps_value R (Suc l) (snd kv)) \<le> n \<longrightarrow> delimited rest \<longrightarrow>
                scan_once F n (dumps_value R (Suc l) (snd kv) @ rest) = Inr (snd kv, rest))"
        by blast
    qed
    have po: "parse_object F m (?J @ newline_indent l @ CHR ''}'' # rest) = Inr (kvs, rest)"
      by (rule parse_object_members [OF ih False fuel])
    have d: "dict_of_pairs kvs = kvs" using JObj(2) by (simp add: dict_of_pairs_distinct)
    have "scan_once F (Suc m)
            (CHR ''{'' # newline_indent (Suc l) @ (?J @ newline_indent l @ CHR ''}'' # rest))
          = Inr (JObj kvs, rest)"
      using po d unfolding J
      by (simp add: scan_once.simps skip_ws_indent [of "Suc l" "CHR 0x22 # t"] skip_ws_head
          json_ws_def)
    then show ?thesis using False by (simp add: n)
  qed
qed

lemma loads_dumps:
  assumes "wf_json R F v"
  shows "loads F (dumps R v) = Inr v"
proof -
  have "scan_once F (Suc (Suc (2 * length (dumps_value R 0 v)))) (dumps_value R 0 v @ [])
          = Inr (v, [])"
    by (rule scan_once_dumps [OF assms _ delimited_Nil]) simp
  then show ?thesis
    using skip_ws_dumps [OF assms, of 0 "[]"]
    by (simp add: loads_def dumps_def skip_ws_def)
qed

section \<open>The values the decoder builds\<close>

lemma dict_set_keys: "fst ` set (dict_set k v d) = insert k (fst ` set d)"
  by (induction d) auto

lemma dict_set_distinct: "distinct (map fst d) \<Longrightarrow> distinct (map fst (dict_set k v d))"
proof (induction d)
  case Nil
  then show ?case by simp
next
  case (Cons p d)
  then show ?case
    using dict_set_keys [of k v d] by (auto simp: image_iff)
qed

lemma dict_set_values: "snd ` set (dict_set k v d) \<subseteq> insert v (snd ` set d)"
  by (induction d) auto

lemma dict_of_pairs_wf_aux:
  "distinct (map fst acc) \<Longrightarrow> \<forall>kv \<in> set acc. P (snd kv) \<Longrightarrow> \<forall>kv \<in> set ps. P (snd kv)
   \<Longrightarrow> distinct (map fst (foldl (\<lambda>d (k, v). dict_set k v d) acc ps))
       \<and> (\<forall>kv \<in> set (foldl (\<lambda>d (k, v). dict_set k v d) acc ps). P (snd kv))"
proof (induction ps arbitrary: acc)
  case Nil
  then show ?case by simp
next
  case (Cons p ps)
  obtain k v where p: "p = (k, v)" by (cases p)
  have d: "distinct (map fst (dict_set k v acc))"
    using Cons.prems(1) by (rule dict_set_distinct)
  have "\<forall>kv \<in> set (dict_set k v acc). P (snd kv)"
  proof
    fix kv
    assume "kv \<in> set (dict_set k v acc)"
    then have "snd kv \<in> snd ` set (dict_set k v acc)" by simp
    with dict_set_values [of k v acc] have "snd kv = v \<or> snd kv \<in> snd ` set acc" by auto
    then show "P (snd kv)" using Cons.prems(2,3) p by auto
  qed
  from Cons.IH [OF d this] Cons.prems(3) show ?case by (simp add: p)
qed

lemma dict_of_pairs_wf:
  "\<forall>kv \<in> set ps. P (snd kv)
   \<Longrightarrow> distinct (map fst (dict_of_pairs ps)) \<and> (\<forall>kv \<in> set (dict_of_pairs ps). P (snd kv))"
  using dict_of_pairs_wf_aux [of "[]" P ps] by (simp add: dict_of_pairs_def)

lemma and_then_Inr_iff:
  "and_then r f = Inr y \<longleftrightarrow> (\<exists>x. r = Inr x \<and> f x = Inr y)"
  by (cases r) simp_all

lemma and_then_InrE:
  assumes "and_then r f = Inr y"
  obtains x where "r = Inr x" and "f x = Inr y"
  using assms by (cases r) simp_all

lemma scan_literal_wf:
  assumes "\<And>lit. float_ok R F (F lit)" and "scan_literal F s = Inr (v, r)"
  shows "wf_json R F v"
proof -
  from assms(2) have "(\<exists>lit. v = JFloat (F lit)) \<or> v = JFloat PyNaN \<or> (\<exists>b. v = JFloat (PyInf b))
          \<or> (\<exists>i. v = JInt i) \<or> v = JNull \<or> (\<exists>b. v = JBool b)"
    unfolding scan_literal_def
    by (cases "match_number s") (auto split: if_splits)
  then show ?thesis using assms(1) by (auto simp: float_ok_def)
qed

lemma scan_wf:
  assumes "float_round_trip R F"
  shows "(\<forall>s v r. scan_once F n s = Inr (v, r) \<longrightarrow> wf_json R F v) \<and>
         (\<forall>s vs r. parse_array F n s = Inr (vs, r) \<longrightarrow> (\<forall>x \<in> set vs. wf_json R F x)) \<and>
         (\<forall>s ps r. parse_object F n s = Inr (ps, r) \<longrightarrow> (\<forall>kv \<in> set ps. wf_json R F (snd kv)))"
proof (induction n)
  case 0
  show ?case by (simp add: scan_once.simps parse_array.simps parse_object.simps)
next
  case (Suc n)
  from Suc have ih1: "\<And>s v r. scan_once F n s = Inr (v, r) \<Longrightarrow> wf_json R F v"
    and ih2: "\<And>s vs r. parse_array F n s = Inr (vs, r) \<Longrightarrow> \<forall>x \<in> set vs. wf_json R F x"
    and ih3: "\<And>s ps r. parse_object F n s = Inr (ps, r) \<Longrightarrow> \<forall>kv \<in> set ps. wf_json R F (snd kv)"
    by blast+
  have fl: "\<And>lit. float_ok R F (F lit)" using assms by (simp add: float_round_trip_def)
  have a: "wf_json R F v" if "scan_once F (Suc n) s = Inr (v, r)" for s v r
  proof (cases s)
    case Nil
    with that show ?thesis by (simp add: scan_once.simps)
  next
    case (Cons c cs)
    consider "c = CHR 0x22" | "c = CHR ''{''" | "c = CHR ''[''"
      | "c \<noteq> CHR 0x22" "c \<noteq> CHR ''{''" "c \<noteq> CHR ''[''"
      by blast
    then show ?thesis
    proof cases
      case 1
      with that Cons have "and_then (scanstring cs) (\<lambda>(str, r). Inr (JStr str, r)) = Inr (v, r)"
        by (simp add: scan_once.simps)
      then obtain x where "(\<lambda>(str, r). Inr (JStr str, r)) x = (Inr (v, r) :: py_error + json \<times> string)"
        by (rule and_then_InrE)
      then show ?thesis by (cases x) auto
    next
      case 2
      with that Cons have e:
        "(case skip_ws cs of
               [] \<Rightarrow> Inl JSONDecodeError
             | d # r \<Rightarrow>
                 if d = CHR ''}'' then Inr (JObj [], r)
                 else and_then (parse_object F n (d # r))
                        (\<lambda>(pairs, r'). Inr (JObj (dict_of_pairs pairs), r'))) = Inr (v, r)"
        by (simp add: scan_once.simps)
      show ?thesis
      proof (cases "skip_ws cs")
        case Nil
        with e show ?thesis by simp
      next
        case (Cons d r0)
        show ?thesis
        proof (cases "d = CHR ''}''")
          case True
          with e Cons show ?thesis by auto
        next
          case False
          with e Cons have "and_then (parse_object F n (d # r0))
                        (\<lambda>(pairs, r'). Inr (JObj (dict_of_pairs pairs), r')) = Inr (v, r)"
            by simp
          then obtain x where x: "parse_object F n (d # r0) = Inr x"
            and y: "(\<lambda>(pairs, r'). Inr (JObj (dict_of_pairs pairs), r')) x
                      = (Inr (v, r) :: py_error + json \<times> string)"
            by (rule and_then_InrE)
          obtain ps r' where p: "x = (ps, r')" by (cases x)
          from y p have v: "v = JObj (dict_of_pairs ps)" by simp
          from ih3 [OF x [unfolded p]] dict_of_pairs_wf [of ps "wf_json R F"] show ?thesis
            by (simp add: v)
        qed
      qed
    next
      case 3
      with that Cons have e:
        "(case skip_ws cs of
               [] \<Rightarrow> Inl JSONDecodeError
             | d # r \<Rightarrow>
                 if d = CHR '']'' then Inr (JArr [], r)
                 else and_then (parse_array F n (d # r))
                        (\<lambda>(values, r'). Inr (JArr values, r'))) = Inr (v, r)"
        by (simp add: scan_once.simps)
      show ?thesis
      proof (cases "skip_ws cs")
        case Nil
        with e show ?thesis by simp
      next
        case (Cons d r0)
        show ?thesis
        proof (cases "d = CHR '']''")
          case True
          with e Cons show ?thesis by auto
        next
          case False
          with e Cons have "and_then (parse_array F n (d # r0))
                        (\<lambda>(values, r'). Inr (JArr values, r')) = Inr (v, r)"
            by simp
          then obtain x where x: "parse_array F n (d # r0) = Inr x"
            and y: "(\<lambda>(values, r'). Inr (JArr values, r')) x
                      = (Inr (v, r) :: py_error + json \<times> string)"
            by (rule and_then_InrE)
          obtain vs r' where p: "x = (vs, r')" by (cases x)
          from y p have v: "v = JArr vs" by simp
          from ih2 [OF x [unfolded p]] show ?thesis by (simp add: v)
        qed
      qed
    next
      case 4
      with that Cons have "scan_literal F s = Inr (v, r)"
        by (simp add: scan_once.simps)
      with fl show ?thesis by (rule scan_literal_wf)
    qed
  qed
  have b: "\<forall>x \<in> set vs. wf_json R F x" if "parse_array F (Suc n) s = Inr (vs, r)" for s vs r
  proof -
    from that have "and_then (scan_once F n s) (\<lambda>(v, r).
       case skip_ws r of
         [] \<Rightarrow> Inl JSONDecodeError
       | d # r' \<Rightarrow>
           if d = CHR '']'' then Inr ([v], r')
           else if d = CHR '','' then
             and_then (parse_array F n (skip_ws r'))
               (\<lambda>(values, r''). Inr (v # values, r''))
           else Inl JSONDecodeError) = Inr (vs, r)"
      by (simp only: parse_array.simps)
    then obtain x where x: "scan_once F n s = Inr x"
      and y: "(\<lambda>(v, r).
       case skip_ws r of
         [] \<Rightarrow> Inl JSONDecodeError
       | d # r' \<Rightarrow>
           if d = CHR '']'' then Inr ([v], r')
           else if d = CHR '','' then
             and_then (parse_array F n (skip_ws r'))
               (\<lambda>(values, r''). Inr (v # values, r''))
           else Inl JSONDecodeError) x = Inr (vs, r)"
      by (rule and_then_InrE)
    obtain v r1 where p: "x = (v, r1)" by (cases x)
    from ih1 [OF x [unfolded p]] have wv: "wf_json R F v" .
    from y p have e: "(case skip_ws r1 of
         [] \<Rightarrow> Inl JSONDecodeError
       | d # r' \<Rightarrow>
           if d = CHR '']'' then Inr ([v], r')
           else if d = CHR '','' then
             and_then (parse_array F n (skip_ws r'))
               (\<lambda>(values, r''). Inr (v # values, r''))
           else Inl JSONDecodeError) = Inr (vs, r)" by simp
    show ?thesis
    proof (cases "skip_ws r1")
      case Nil
      with e show ?thesis by simp
    next
      case (Cons d r')
      consider "d = CHR '']''" | "d \<noteq> CHR '']''" "d = CHR '',''" | "d \<noteq> CHR '']''" "d \<noteq> CHR '',''"
        by blast
      then show ?thesis
      proof cases
        case 1
        with e Cons wv show ?thesis by auto
      next
        case 2
        with e Cons have "and_then (parse_array F n (skip_ws r'))
               (\<lambda>(values, r''). Inr (v # values, r'')) = Inr (vs, r)" by simp
        then obtain z where z: "parse_array F n (skip_ws r') = Inr z"
          and w: "(\<lambda>(values, r''). Inr (v # values, r'')) z
                    = (Inr (vs, r) :: py_error + json list \<times> string)"
          by (rule and_then_InrE)
        obtain vs' r'' where q: "z = (vs', r'')" by (cases z)
        from w q have "vs = v # vs'" by simp
        with wv ih2 [OF z [unfolded q]] show ?thesis by simp
      next
        case 3
        with e Cons show ?thesis by simp
      qed
    qed
  qed
  have c: "\<forall>kv \<in> set ps. wf_json R F (snd kv)" if "parse_object F (Suc n) s = Inr (ps, r)" for s ps r
  proof (cases s)
    case Nil
    with that show ?thesis by (simp add: parse_object.simps)
  next
    case (Cons q s1)
    show ?thesis
    proof (cases "q = CHR 0x22")
      case False
      with that Cons show ?thesis by (simp add: parse_object.simps)
    next
      case True
      let ?G = "\<lambda>(key, r1).
              case skip_ws r1 of
                [] \<Rightarrow> Inl JSONDecodeError
              | colon # r2 \<Rightarrow>
                  if colon \<noteq> CHR '':'' then Inl JSONDecodeError
                  else
                    and_then (scan_once F n (skip_ws r2)) (\<lambda>(v, r3).
                      case skip_ws r3 of
                        [] \<Rightarrow> Inl JSONDecodeError
                      | d # r4 \<Rightarrow>
                          if d = CHR ''}'' then Inr ([(key, v)], r4)
                          else if d = CHR '','' then
                            and_then (parse_object F n (skip_ws r4))
                              (\<lambda>(pairs, r5). Inr ((key, v) # pairs, r5))
                          else Inl JSONDecodeError)"
      from that Cons True have "and_then (scanstring s1) ?G = Inr (ps, r)"
        by (simp add: parse_object.simps)
      then obtain x where y: "?G x = Inr (ps, r)" by (rule and_then_InrE)
      obtain key r1 where p: "x = (key, r1)" by (cases x)
      let ?H = "\<lambda>(v, r3).
                      case skip_ws r3 of
                        [] \<Rightarrow> Inl JSONDecodeError
                      | d # r4 \<Rightarrow>
                          if d = CHR ''}'' then Inr ([(key, v)], r4)
                          else if d = CHR '','' then
                            and_then (parse_object F n (skip_ws r4))
                              (\<lambda>(pairs, r5). Inr ((key, v) # pairs, r5))
                          else Inl JSONDecodeError"
      from y p have e1: "(case skip_ws r1 of
                [] \<Rightarrow> Inl JSONDecodeError
              | colon # r2 \<Rightarrow>
                  if colon \<noteq> CHR '':'' then Inl JSONDecodeError
                  else and_then (scan_once F n (skip_ws r2)) ?H) = Inr (ps, r)"
        by simp
      then obtain r2 where "and_then (scan_once F n (skip_ws r2)) ?H = Inr (ps, r)"
        by (cases "skip_ws r1") (auto split: if_splits)
      then obtain z where z: "scan_once F n (skip_ws r2) = Inr z" and h: "?H z = Inr (ps, r)"
        by (rule and_then_InrE)
      obtain v r3 where zq: "z = (v, r3)" by (cases z)
      from ih1 [OF z [unfolded zq]] have wv: "wf_json R F v" .
      from h zq have e2: "(case skip_ws r3 of
                        [] \<Rightarrow> Inl JSONDecodeError
                      | d # r4 \<Rightarrow>
                          if d = CHR ''}'' then Inr ([(key, v)], r4)
                          else if d = CHR '','' then
                            and_then (parse_object F n (skip_ws r4))
                              (\<lambda>(pairs, r5). Inr ((key, v) # pairs, r5))
                          else Inl JSONDecodeError) = Inr (ps, r)"
        by simp
      show ?thesis
      proof (cases "skip_ws r3")
        case Nil
        with e2 show ?thesis by simp
      next
        case (Cons d r4)
        consider "d = CHR ''}''" | "d \<noteq> CHR ''}''" "d = CHR '',''" | "d \<noteq> CHR ''}''" "d \<noteq> CHR '',''"
          by blast
        then show ?thesis
        proof cases
          case 1
          with e2 Cons wv show ?thesis by auto
        next
          case 2
          with e2 Cons have "and_then (parse_object F n (skip_ws r4))
                              (\<lambda>(pairs, r5). Inr ((key, v) # pairs, r5)) = Inr (ps, r)" by simp
          then obtain u where u: "parse_object F n (skip_ws r4) = Inr u"
            and w: "(\<lambda>(pairs, r5). Inr ((key, v) # pairs, r5)) u
                      = (Inr (ps, r) :: py_error + (string \<times> json) list \<times> string)"
            by (rule and_then_InrE)
          obtain ps' r5 where uq: "u = (ps', r5)" by (cases u)
          from w uq have "ps = (key, v) # ps'" by simp
          with wv ih3 [OF u [unfolded uq]] show ?thesis by simp
        next
          case 3
          with e2 Cons show ?thesis by simp
        qed
      qed
    qed
  qed
  from a b c show ?case by blast
qed

lemma loads_wf:
  assumes "float_round_trip float_repr float_of_str"
    and "loads float_of_str s = Inr v"
  shows "wf_json float_repr float_of_str v"
proof -
  from assms(2) have "and_then (scan_once float_of_str (Suc (Suc (2 * length s))) (skip_ws s))
      (\<lambda>(obj, r). if skip_ws r = [] then Inr obj else Inl JSONDecodeError) = Inr v"
    by (simp add: loads_def)
  then obtain x where x: "scan_once float_of_str (Suc (Suc (2 * length s))) (skip_ws s) = Inr x"
    and y: "(\<lambda>(obj, r). if skip_ws r = [] then Inr obj else Inl JSONDecodeError) x
              = (Inr v :: py_error + json)"
    by (rule and_then_InrE)
  obtain v' r where p: "x = (v', r)" by (cases x)
  from y p have "v' = v" by (simp split: if_splits)
  with x p have "scan_once float_of_str (Suc (Suc (2 * length s))) (skip_ws s) = Inr (v, r)" by simp
  with scan_wf [OF assms(1), of "Suc (Suc (2 * length s))"] show ?thesis
    by blast
qed

section \<open>The bound of the decoder is never spent\<close>

lemma within_Inr: "within k (Inr (x, r)) = (length r < k)"
  by (simp add: within_def)

lemma within_decode_error: "within k (Inl JSONDecodeError)"
  by (simp add: within_def fuel_error_def)

lemma within_mono: "within j res \<Longrightarrow> j \<le> k \<Longrightarrow> within k res"
  by (auto simp: within_def)

lemma within_and_then:
  assumes "within j r1"
    and "\<And>x r. r1 = Inr (x, r) \<Longrightarrow> length r < j \<Longrightarrow> within k (f (x, r))"
  shows "within k (and_then r1 f)"
proof (cases r1)
  case (Inl e)
  with assms(1) show ?thesis by (simp add: within_def)
next
  case (Inr p)
  obtain x r where p: "p = (x, r)" by (cases p)
  from assms(1) Inr p have "length r < j" by (simp add: within_def)
  from assms(2) [OF Inr [unfolded p] this] show ?thesis by (simp add: Inr p)
qed

lemma length_skip_ws: "length (skip_ws s) \<le> length s"
  by (simp add: skip_ws_def length_dropWhile_le)

lemma scanstring_within: "within (Suc (length s)) (scanstring s)"
proof (induction s rule: scanstring.induct)
  case 1
  show ?case by (simp add: within_decode_error)
next
  case (2 c cs)
  consider "c = CHR 0x22" | "c \<noteq> CHR 0x22" "c = CHR 0x5C"
    | "c \<noteq> CHR 0x22" "c \<noteq> CHR 0x5C" "(of_char c :: nat) < 32"
    | "c \<noteq> CHR 0x22" "c \<noteq> CHR 0x5C" "\<not> (of_char c :: nat) < 32"
    by blast
  then show ?case
  proof cases
    case 1
    then show ?thesis by (simp add: within_Inr)
  next
    case 2
    show ?thesis
    proof (cases cs)
      case Nil
      with 2 show ?thesis by (simp add: within_decode_error)
    next
      case (Cons esc rest)
      show ?thesis
      proof (cases "esc = CHR ''u''")
        case True
        show ?thesis
        proof (cases "decode_uXXXX rest")
          case None
          with 2 Cons True show ?thesis by (simp add: within_decode_error)
        next
          case (Some uni)
          show ?thesis
          proof (cases "uni < 256")
            case False
            with 2 Cons True Some show ?thesis by (simp add: within_def fuel_error_def)
          next
            case lt: True
            have ih: "within (Suc (length (drop 4 rest))) (scanstring (drop 4 rest))"
              using "2.IH"(1) [OF 2(1) 2(2) Cons True Some lt] .
            have "within (Suc (length (c # cs)))
                    (and_then (scanstring (drop 4 rest)) (\<lambda>(chunk, r). Inr (char_of uni # chunk, r)))"
              by (rule within_and_then [OF ih]) (simp add: within_Inr Cons)
            with 2 Cons True Some lt show ?thesis by simp
          qed
        qed
      next
        case False
        show ?thesis
        proof (cases "backslash esc")
          case None
          with 2 Cons False show ?thesis by (simp add: within_decode_error)
        next
          case (Some ch)
          have ih: "within (Suc (length rest)) (scanstring rest)"
            using "2.IH"(2) [OF 2(1) 2(2) Cons False Some] .
          have "within (Suc (length (c # cs)))
                  (and_then (scanstring rest) (\<lambda>(chunk, r). Inr (ch # chunk, r)))"
            by (rule within_and_then [OF ih]) (simp add: within_Inr Cons)
          with 2 Cons False Some show ?thesis by simp
        qed
      qed
    qed
  next
    case 3
    then show ?thesis by (simp add: within_decode_error)
  next
    case 4
    have ih: "within (Suc (length cs)) (scanstring cs)"
      using "2.IH"(3) [OF 4(1) 4(2) 4(3)] .
    have "within (Suc (length (c # cs)))
            (and_then (scanstring cs) (\<lambda>(chunk, r). Inr (c # chunk, r)))"
      by (rule within_and_then [OF ih]) (simp add: within_Inr)
    with 4 show ?thesis by simp
  qed
qed

lemma prefix_drop_shorter: "prefix p s \<Longrightarrow> p \<noteq> [] \<Longrightarrow> length (drop (length p) s) < length s"
  by (auto simp: prefix_def)

lemma scan_literal_within: "within (length s) (scan_literal F s)"
proof -
  have n: "prefix ''null'' s \<Longrightarrow> length (drop 4 s) < length s"
    using prefix_drop_shorter [of "''null''" s] by simp
  have t: "prefix ''true'' s \<Longrightarrow> length (drop 4 s) < length s"
    using prefix_drop_shorter [of "''true''" s] by simp
  have f: "prefix ''false'' s \<Longrightarrow> length (drop 5 s) < length s"
    using prefix_drop_shorter [of "''false''" s] by simp
  have a: "prefix ''NaN'' s \<Longrightarrow> length (drop 3 s) < length s"
    using prefix_drop_shorter [of "''NaN''" s] by simp
  have i: "prefix ''Infinity'' s \<Longrightarrow> length (drop 8 s) < length s"
    using prefix_drop_shorter [of "''Infinity''" s] by simp
  have m: "prefix ''-Infinity'' s \<Longrightarrow> length (drop 9 s) < length s"
    using prefix_drop_shorter [of "''-Infinity''" s] by simp
  show ?thesis
  proof (cases "match_number s")
    case None
    then show ?thesis
      using n t f a i m unfolding scan_literal_def
      by (simp add: within_Inr within_decode_error del: length_drop)
  next
    case (Some q)
    obtain integer frac exp r where q: "q = (integer, frac, exp, r)" by (cases q)
    from match_number_consumed [OF Some [unfolded q]] have "length r < length s"
      by (cases integer) auto
    then show ?thesis
      using n t f Some q unfolding scan_literal_def
      by (simp add: within_Inr del: length_drop)
  qed
qed

lemma scan_total:
  "(\<forall>s. 2 * length s < n \<longrightarrow> within (length s) (scan_once F n s)) \<and>
   (\<forall>s. 2 * length s + 1 < n \<longrightarrow> within (length s) (parse_array F n s)) \<and>
   (\<forall>s. 2 * length s + 1 < n \<longrightarrow> within (length s) (parse_object F n s))"
proof (induction n)
  case 0
  show ?case by simp
next
  case (Suc n)
  from Suc have ih1: "\<And>s. 2 * length s < n \<Longrightarrow> within (length s) (scan_once F n s)"
    and ih2: "\<And>s. 2 * length s + 1 < n \<Longrightarrow> within (length s) (parse_array F n s)"
    and ih3: "\<And>s. 2 * length s + 1 < n \<Longrightarrow> within (length s) (parse_object F n s)"
    by blast+
  have a: "within (length s) (scan_once F (Suc n) s)" if fuel: "2 * length s < Suc n" for s
  proof (cases s)
    case Nil
    then show ?thesis by (simp add: scan_once.simps within_decode_error)
  next
    case (Cons c cs)
    consider "c = CHR 0x22" | "c = CHR ''{''" | "c = CHR ''[''"
      | "c \<noteq> CHR 0x22" "c \<noteq> CHR ''{''" "c \<noteq> CHR ''[''"
      by blast
    then show ?thesis
    proof cases
      case 1
      have "within (length s) (and_then (scanstring cs) (\<lambda>(str, r). Inr (JStr str, r)))"
        by (rule within_and_then [OF scanstring_within]) (simp add: within_Inr Cons)
      with 1 Cons show ?thesis by (simp add: scan_once.simps)
    next
      case 2
      have "within (length s)
              (case skip_ws cs of
                 [] \<Rightarrow> Inl JSONDecodeError
               | d # r \<Rightarrow>
                   if d = CHR ''}'' then Inr (JObj [], r)
                   else and_then (parse_object F n (d # r))
                          (\<lambda>(pairs, r'). Inr (JObj (dict_of_pairs pairs), r')))"
      proof (cases "skip_ws cs")
        case Nil
        then show ?thesis by (simp add: within_decode_error)
      next
        case inner: (Cons d r)
        from length_skip_ws [of cs] inner have len: "length (d # r) \<le> length cs" by simp
        show ?thesis
        proof (cases "d = CHR ''}''")
          case True
          with inner len Cons show ?thesis by (simp add: within_Inr)
        next
          case False
          have "2 * length (d # r) + 1 < n" using len fuel Cons by simp
          from ih3 [OF this] have w: "within (length (d # r)) (parse_object F n (d # r))" .
          have "within (length s) (and_then (parse_object F n (d # r))
                          (\<lambda>(pairs, r'). Inr (JObj (dict_of_pairs pairs), r')))"
            by (rule within_and_then [OF w]) (use len Cons in \<open>simp add: within_Inr\<close>)
          with inner False show ?thesis by simp
        qed
      qed
      with 2 Cons show ?thesis by (simp add: scan_once.simps)
    next
      case 3
      have "within (length s)
              (case skip_ws cs of
                 [] \<Rightarrow> Inl JSONDecodeError
               | d # r \<Rightarrow>
                   if d = CHR '']'' then Inr (JArr [], r)
                   else and_then (parse_array F n (d # r))
                          (\<lambda>(values, r'). Inr (JArr values, r')))"
      proof (cases "skip_ws cs")
        case Nil
        then show ?thesis by (simp add: within_decode_error)
      next
        case inner: (Cons d r)
        from length_skip_ws [of cs] inner have len: "length (d # r) \<le> length cs" by simp
        show ?thesis
        proof (cases "d = CHR '']''")
          case True
          with inner len Cons show ?thesis by (simp add: within_Inr)
        next
          case False
          have "2 * length (d # r) + 1 < n" using len fuel Cons by simp
          from ih2 [OF this] have w: "within (length (d # r)) (parse_array F n (d # r))" .
          have "within (length s) (and_then (parse_array F n (d # r))
                          (\<lambda>(values, r'). Inr (JArr values, r')))"
            by (rule within_and_then [OF w]) (use len Cons in \<open>simp add: within_Inr\<close>)
          with inner False show ?thesis by simp
        qed
      qed
      with 3 Cons show ?thesis by (simp add: scan_once.simps)
    next
      case 4
      with Cons have "scan_once F (Suc n) s = scan_literal F s"
        by (simp add: scan_once.simps)
      then show ?thesis by (simp add: scan_literal_within)
    qed
  qed
  have b: "within (length s) (parse_array F (Suc n) s)" if fuel: "2 * length s + 1 < Suc n" for s
  proof -
    have "2 * length s < n" using fuel by simp
    from ih1 [OF this] have w: "within (length s) (scan_once F n s)" .
    have "within (length s) (and_then (scan_once F n s) (\<lambda>(v, r).
       case skip_ws r of
         [] \<Rightarrow> Inl JSONDecodeError
       | d # r' \<Rightarrow>
           if d = CHR '']'' then Inr ([v], r')
           else if d = CHR '','' then
             and_then (parse_array F n (skip_ws r'))
               (\<lambda>(values, r''). Inr (v # values, r''))
           else Inl JSONDecodeError))"
    proof (rule within_and_then [OF w])
      fix v :: json and r :: string
      assume r: "length r < length s"
      show "within (length s) ((\<lambda>(v, r).
       case skip_ws r of
         [] \<Rightarrow> Inl JSONDecodeError
       | d # r' \<Rightarrow>
           if d = CHR '']'' then Inr ([v], r')
           else if d = CHR '','' then
             and_then (parse_array F n (skip_ws r'))
               (\<lambda>(values, r''). Inr (v # values, r''))
           else Inl JSONDecodeError) (v, r))"
      proof (cases "skip_ws r")
        case Nil
        then show ?thesis by (simp add: within_decode_error)
      next
        case (Cons d r')
        from length_skip_ws [of r] Cons r have len: "Suc (length r') < length s" by simp
        consider "d = CHR '']''" | "d \<noteq> CHR '']''" "d = CHR '',''"
          | "d \<noteq> CHR '']''" "d \<noteq> CHR '',''"
          by blast
        then show ?thesis
        proof cases
          case 1
          with Cons len show ?thesis by (simp add: within_Inr)
        next
          case 2
          have l2: "length (skip_ws r') \<le> length r'" by (rule length_skip_ws)
          then have "2 * length (skip_ws r') + 1 < n" using len fuel by simp
          from ih2 [OF this] have w2: "within (length (skip_ws r')) (parse_array F n (skip_ws r'))" .
          have "within (length s) (and_then (parse_array F n (skip_ws r'))
               (\<lambda>(values, r''). Inr (v # values, r'')))"
            by (rule within_and_then [OF w2]) (use l2 len in \<open>simp add: within_Inr\<close>)
          with Cons 2 show ?thesis by simp
        next
          case 3
          with Cons show ?thesis by (simp add: within_decode_error)
        qed
      qed
    qed
    then show ?thesis by (simp only: parse_array.simps)
  qed
  have c: "within (length s) (parse_object F (Suc n) s)" if fuel: "2 * length s + 1 < Suc n" for s
  proof (cases s)
    case Nil
    then show ?thesis by (simp add: parse_object.simps within_decode_error)
  next
    case (Cons q s1)
    show ?thesis
    proof (cases "q = CHR 0x22")
      case False
      with Cons show ?thesis by (simp add: parse_object.simps within_decode_error)
    next
      case True
      have "within (length s) (and_then (scanstring s1) (\<lambda>(key, r1).
              case skip_ws r1 of
                [] \<Rightarrow> Inl JSONDecodeError
              | colon # r2 \<Rightarrow>
                  if colon \<noteq> CHR '':'' then Inl JSONDecodeError
                  else
                    and_then (scan_once F n (skip_ws r2)) (\<lambda>(v, r3).
                      case skip_ws r3 of
                        [] \<Rightarrow> Inl JSONDecodeError
                      | d # r4 \<Rightarrow>
                          if d = CHR ''}'' then Inr ([(key, v)], r4)
                          else if d = CHR '','' then
                            and_then (parse_object F n (skip_ws r4))
                              (\<lambda>(pairs, r5). Inr ((key, v) # pairs, r5))
                          else Inl JSONDecodeError)))"
      proof (rule within_and_then [OF scanstring_within])
        fix key :: string and r1 :: string
        assume r1: "length r1 < Suc (length s1)"
        show "within (length s) ((\<lambda>(key, r1).
              case skip_ws r1 of
                [] \<Rightarrow> Inl JSONDecodeError
              | colon # r2 \<Rightarrow>
                  if colon \<noteq> CHR '':'' then Inl JSONDecodeError
                  else
                    and_then (scan_once F n (skip_ws r2)) (\<lambda>(v, r3).
                      case skip_ws r3 of
                        [] \<Rightarrow> Inl JSONDecodeError
                      | d # r4 \<Rightarrow>
                          if d = CHR ''}'' then Inr ([(key, v)], r4)
                          else if d = CHR '','' then
                            and_then (parse_object F n (skip_ws r4))
                              (\<lambda>(pairs, r5). Inr ((key, v) # pairs, r5))
                          else Inl JSONDecodeError)) (key, r1))"
        proof (cases "skip_ws r1")
          case Nil
          then show ?thesis by (simp add: within_decode_error)
        next
          case c1: (Cons colon r2)
          from length_skip_ws [of r1] c1 r1 Cons have len2: "Suc (length r2) < length s" by simp
          show ?thesis
          proof (cases "colon = CHR '':''")
            case False
            with c1 show ?thesis by (simp add: within_decode_error)
          next
            case colon: True
            have l3: "length (skip_ws r2) \<le> length r2" by (rule length_skip_ws)
            then have "2 * length (skip_ws r2) < n" using len2 fuel by simp
            from ih1 [OF this] have w: "within (length (skip_ws r2)) (scan_once F n (skip_ws r2))" .
            have "within (length s) (and_then (scan_once F n (skip_ws r2)) (\<lambda>(v, r3).
                      case skip_ws r3 of
                        [] \<Rightarrow> Inl JSONDecodeError
                      | d # r4 \<Rightarrow>
                          if d = CHR ''}'' then Inr ([(key, v)], r4)
                          else if d = CHR '','' then
                            and_then (parse_object F n (skip_ws r4))
                              (\<lambda>(pairs, r5). Inr ((key, v) # pairs, r5))
                          else Inl JSONDecodeError))"
            proof (rule within_and_then [OF w])
              fix v :: json and r3 :: string
              assume r3: "length r3 < length (skip_ws r2)"
              show "within (length s) ((\<lambda>(v, r3).
                      case skip_ws r3 of
                        [] \<Rightarrow> Inl JSONDecodeError
                      | d # r4 \<Rightarrow>
                          if d = CHR ''}'' then Inr ([(key, v)], r4)
                          else if d = CHR '','' then
                            and_then (parse_object F n (skip_ws r4))
                              (\<lambda>(pairs, r5). Inr ((key, v) # pairs, r5))
                          else Inl JSONDecodeError) (v, r3))"
              proof (cases "skip_ws r3")
                case Nil
                then show ?thesis by (simp add: within_decode_error)
              next
                case c3: (Cons d r4)
                from length_skip_ws [of r3] c3 r3 l3 len2
                have len4: "Suc (Suc (Suc (length r4))) < length s" by simp
                consider "d = CHR ''}''" | "d \<noteq> CHR ''}''" "d = CHR '',''"
                  | "d \<noteq> CHR ''}''" "d \<noteq> CHR '',''"
                  by blast
                then show ?thesis
                proof cases
                  case 1
                  with c3 len4 show ?thesis by (simp add: within_Inr)
                next
                  case 2
                  have l5: "length (skip_ws r4) \<le> length r4" by (rule length_skip_ws)
                  then have "2 * length (skip_ws r4) + 1 < n" using len4 fuel by simp
                  from ih3 [OF this]
                  have w5: "within (length (skip_ws r4)) (parse_object F n (skip_ws r4))" .
                  have "within (length s) (and_then (parse_object F n (skip_ws r4))
                              (\<lambda>(pairs, r5). Inr ((key, v) # pairs, r5)))"
                    by (rule within_and_then [OF w5]) (use l5 len4 in \<open>simp add: within_Inr\<close>)
                  with c3 2 show ?thesis by simp
                next
                  case 3
                  with c3 show ?thesis by (simp add: within_decode_error)
                qed
              qed
            qed
            with c1 colon show ?thesis by simp
          qed
        qed
      qed
      with Cons True show ?thesis by (simp add: parse_object.simps)
    qed
  qed
  from a b c show ?case by blast
qed

lemma loads_total:
  "loads F s \<noteq> Inl (RaisedError ''maximum recursion depth exceeded'')"
proof -
  have "2 * length (skip_ws s) < Suc (Suc (2 * length s))"
    using length_skip_ws [of s] by simp
  with scan_total [of "Suc (Suc (2 * length s))" F]
  have "within (length (skip_ws s)) (scan_once F (Suc (Suc (2 * length s))) (skip_ws s))"
    by blast
  then show ?thesis
    by (cases "scan_once F (Suc (Suc (2 * length s))) (skip_ws s)")
      (auto simp: loads_def within_def fuel_error_def split: if_splits)
qed

section \<open>Round trip of the download\<close>

text \<open>
  The data of the download button is the serialization of the decoded output text,
  and decoding it gives the decoded value again.
\<close>

lemma download_round_trip:
  assumes "float_round_trip float_repr float_of_str"
    and "last_output_text st = Some output_text"
    and "DownloadButton label data file_name mime
           \<in> set (fst (show_result (loads float_of_str) (dumps float_repr) st))"
  shows "\<exists>parsed. loads float_of_str output_text = Inr parsed \<and>
                  data = dumps float_repr parsed \<and>
                  loads float_of_str data = Inr parsed"
proof (cases "loads float_of_str output_text")
  case (Inl e)
  with assms(2,3) show ?thesis
    by (cases e) (auto simp: show_result_def Let_def split: if_splits)
next
  case (Inr parsed)
  have rt: "loads float_of_str (dumps float_repr parsed) = Inr parsed"
    by (rule loads_dumps [OF loads_wf [OF assms(1) Inr]])
  from assms(2,3) Inr have "data = dumps float_repr parsed"
    by (cases "missing_loop required_fields parsed")
      (auto simp: show_result_def Let_def split: if_splits)
  with Inr rt show ?thesis by simp
qed

text \<open>
  C8. Whenever \<open>json.loads\<close> decodes a text to a value, serializing the value with
  \<open>json.dumps(_, ensure_ascii=False, indent=2)\<close> and decoding the serialization gives
  that value again. The conversion of floats is any pair of functions with the round
  trip Python documents for \<open>repr\<close>. Equality is that of the values: dicts with the
  same items in the same order, lists with the same elements, and one value for
  not-a-number, as the decoder has one object for it.
\<close>

theorem json_round_trip:
  assumes "float_round_trip float_repr float_of_str"
    and "loads float_of_str s = Inr v"
  shows "loads float_of_str (dumps float_repr v) = Inr v"
  using loads_dumps [OF loads_wf [OF assms]] .

text \<open>
  An instance: a dict with a list of an int, a float, \<open>None\<close> and a negative int, and
  a str with an escaped line feed, decoded from a text with little white space.
\<close>

theorem json_round_trip_witness:
  "loads (\<lambda>lit. if lit = ''0.5'' then PyFinite 1 (- 1) else PyInf False)
     (''{'' @ [CHR 0x22] @ ''a'' @ [CHR 0x22] @ '': [1, 0.5, null, -20],''
      @ [CHR 0x22] @ ''b'' @ [CHR 0x22] @ '':'' @ [CHR 0x22, CHR 0x5C] @ ''n'' @ [CHR 0x22] @ ''}'')
   = Inr (JObj [(''a'', JArr [JInt 1, JFloat (PyFinite 1 (- 1)), JNull, JInt (- 20)]),
                (''b'', JStr [CHR 0x0A])]) \<and>
   loads (\<lambda>lit. if lit = ''0.5'' then PyFinite 1 (- 1) else PyInf False)
     (dumps (\<lambda>f. ''0.5'')
        (JObj [(''a'', JArr [JInt 1, JFloat (PyFinite 1 (- 1)), JNull, JInt (- 20)]),
               (''b'', JStr [CHR 0x0A])]))
   = Inr (JObj [(''a'', JArr [JInt 1, JFloat (PyFinite 1 (- 1)), JNull, JInt (- 20)]),
                (''b'', JStr [CHR 0x0A])])"
proof -
  have fl: "float_literal ''0.5''"
    by (simp add: float_literal_def match_number_def scan_integer_def scan_digits_def
        scan_frac_def scan_exp_def is_digit_def)
  have h1: "float_round_trip (\<lambda>f. ''0.5'')
              (\<lambda>lit. if lit = ''0.5'' then PyFinite 1 (- 1) else PyInf False)"
    using fl by (simp add: float_round_trip_def float_ok_def)
  have h2: "loads (\<lambda>lit. if lit = ''0.5'' then PyFinite 1 (- 1) else PyInf False)
     (''{'' @ [CHR 0x22] @ ''a'' @ [CHR 0x22] @ '': [1, 0.5, null, -20],''
      @ [CHR 0x22] @ ''b'' @ [CHR 0x22] @ '':'' @ [CHR 0x22, CHR 0x5C] @ ''n'' @ [CHR 0x22] @ ''}'')
   = Inr (JObj [(''a'', JArr [JInt 1, JFloat (PyFinite 1 (- 1)), JNull, JInt (- 20)]),
                (''b'', JStr [CHR 0x0A])])"
    by code_simp
  from json_round_trip [OF h1 h2] h2 show ?thesis by blast
qed

end
